theory Spec2Isabelle
  imports Complex_Main
begin

section \<open>Python exceptions and results\<close>

text \<open>
  The helper functions of mstk mutate the document or slide they are given and may raise
  part-way through.  A call therefore yields either \<open>Inr s\<close> (it returned, leaving the
  object in state \<open>s\<close>) or \<open>Inl (e, s)\<close> (it raised \<open>e\<close>, leaving the object in state
  \<open>s\<close>).  Pure functions use \<open>error + 'a\<close>.
\<close>

datatype error = IndexError | AssertionError | ValueError | TypeError | OverflowError

type_synonym 's result = "(error \<times> 's) + 's"

section \<open>docxtk: tables in a word-processor document\<close>

subsection \<open>The part of python-docx the code drives\<close>

text \<open>
  A document body is the sequence of its blocks.  A table keeps its cells in one
  row-major list, and \<open>table.cell(r, c)\<close> reads position \<open>c + r * column_count\<close> of
  that list, as python-docx does; a position outside the list is an \<open>IndexError\<close>.
\<close>

datatype wd_align = LEFT | CENTER | RIGHT

record doc_cell =
  cell_text :: string
  cell_alignment :: "wd_align option"

record doc_table =
  tbl_style :: string
  column_count :: nat
  tbl_cells :: "doc_cell list"

datatype block = Para string string | Tbl doc_table

type_synonym document = "block list"

definition add_table :: "nat \<Rightarrow> nat \<Rightarrow> string \<Rightarrow> doc_table" where
  "add_table nr nc style =
     \<lparr>tbl_style = style, column_count = nc,
      tbl_cells = replicate (nr * nc) \<lparr>cell_text = [], cell_alignment = None\<rparr>\<rparr>"

text \<open>
  The two statements \<open>table.cell(r, c).text = s\<close> and
  \<open>table.cell(r, c).paragraphs[0].alignment = a\<close>, which the code always issues together.
\<close>

definition cell_set ::
  "doc_table \<Rightarrow> nat \<Rightarrow> nat \<Rightarrow> string \<Rightarrow> wd_align \<Rightarrow> doc_table result" where
  "cell_set t r c s a =
     (let k = c + r * column_count t in
      if k < length (tbl_cells t)
      then Inr (t\<lparr>tbl_cells := (tbl_cells t)[k := \<lparr>cell_text = s, cell_alignment = Some a\<rparr>]\<rparr>)
      else Inl (IndexError, t))"

subsection \<open>add_table_from_list\<close>

text \<open>The loop \<open>for j in range(no_cols)\<close> over the column headers (row 0 of the table).\<close>

fun column_headers_loop :: "string list \<Rightarrow> nat list \<Rightarrow> doc_table \<Rightarrow> doc_table result" where
  "column_headers_loop columns [] t = Inr t"
| "column_headers_loop columns (j # js) t =
     (if j < length columns
      then (case cell_set t 0 (j + 1) (columns ! j) CENTER of
              Inl e \<Rightarrow> Inl e
            | Inr t' \<Rightarrow> column_headers_loop columns js t')
      else Inl (IndexError, t))"

text \<open>The loop \<open>for i in range(no_rows)\<close> over the row headers (column 0 of the table).\<close>

fun row_headers_loop :: "string list \<Rightarrow> nat list \<Rightarrow> doc_table \<Rightarrow> doc_table result" where
  "row_headers_loop rows [] t = Inr t"
| "row_headers_loop rows (i # is) t =
     (if i < length rows
      then (case cell_set t (i + 1) 0 (rows ! i) LEFT of
              Inl e \<Rightarrow> Inl e
            | Inr t' \<Rightarrow> row_headers_loop rows is t')
      else Inl (IndexError, t))"

text \<open>
  The nested loops over the data cells.  \<open>str\<close> is Python's \<open>str\<close> on the cell values;
  \<open>data[i][j]\<close> raises \<open>IndexError\<close> when row \<open>i\<close> or its column \<open>j\<close> is missing.
\<close>

fun data_row_loop ::
  "('v \<Rightarrow> string) \<Rightarrow> 'v list list \<Rightarrow> nat \<Rightarrow> nat list \<Rightarrow> doc_table \<Rightarrow> doc_table result" where
  "data_row_loop str data i [] t = Inr t"
| "data_row_loop str data i (j # js) t =
     (if i < length data \<and> j < length (data ! i)
      then (case cell_set t (i + 1) (j + 1) (str (data ! i ! j)) RIGHT of
              Inl e \<Rightarrow> Inl e
            | Inr t' \<Rightarrow> data_row_loop str data i js t')
      else Inl (IndexError, t))"

fun data_loop ::
  "('v \<Rightarrow> string) \<Rightarrow> 'v list list \<Rightarrow> nat list \<Rightarrow> nat list \<Rightarrow> doc_table \<Rightarrow> doc_table result" where
  "data_loop str data [] js t = Inr t"
| "data_loop str data (i # is) js t =
     (case data_row_loop str data i js t of
        Inl e \<Rightarrow> Inl e
      | Inr t' \<Rightarrow> data_loop str data is js t')"

text \<open>
  \<open>add_table_from_list(doc, title, columns, rows, data, footnote)\<close>.  The title paragraph
  is added first; \<open>no_rows\<close> is taken from \<open>data\<close>, so the second assertion compares
  \<open>len(data)\<close> with itself; the table is added to the document before it is filled, so a
  failure while filling leaves the partly filled table in the document.  Here and below
  an \<open>assert\<close> statement is executed, as it is unless the interpreter runs with \<open>-O\<close>.
\<close>

definition add_table_from_list ::
  "('v \<Rightarrow> string) \<Rightarrow> document \<Rightarrow> string \<Rightarrow> string list \<Rightarrow> string list \<Rightarrow> 'v list list \<Rightarrow>
   string option \<Rightarrow> document result" where
  "add_table_from_list str doc title columns rows data footnote =
     (let doc1 = doc @ [Para title ''Footer''];
          no_rows = length data;
          no_cols = length columns
      in case data of
           [] \<Rightarrow> Inl (IndexError, doc1)
         | row0 # _ \<Rightarrow>
             if no_cols \<noteq> length row0 then Inl (AssertionError, doc1)
             else if no_rows \<noteq> length data then Inl (AssertionError, doc1)
             else
               (case column_headers_loop columns [0..<no_cols]
                       (add_table (no_rows + 1) (no_cols + 1) ''Normal Table'') of
                  Inl (e, t) \<Rightarrow> Inl (e, doc1 @ [Tbl t])
                | Inr t1 \<Rightarrow>
                   (case row_headers_loop rows [0..<no_rows] t1 of
                      Inl (e, t) \<Rightarrow> Inl (e, doc1 @ [Tbl t])
                    | Inr t2 \<Rightarrow>
                       (case data_loop str data [0..<no_rows] [0..<no_cols] t2 of
                          Inl (e, t) \<Rightarrow> Inl (e, doc1 @ [Tbl t])
                        | Inr t3 \<Rightarrow>
                            Inr (doc1 @ [Tbl t3] @
                                 (case footnote of
                                    None \<Rightarrow> []
                                  | Some f \<Rightarrow> if f \<noteq> [] then [Para f ''Normal''] else []))))))"

section \<open>Python numbers\<close>

subsection \<open>Floats: IEEE 754 binary64\<close>

text \<open>
  A Python \<open>float\<close> and a numpy \<open>float64\<close> are binary64 values.  A finite one is
  modelled by the rational it denotes; every arithmetic operation computes the exact
  result and rounds it to the nearest binary64 value, ties to the even significand
  (\<open>fl64\<close>): 53 significant bits, exponents from \<open>-1022\<close> (below it the spacing stays
  \<open>2^-1074\<close>, the subnormal range) to \<open>1023\<close>, infinity from \<open>2^1024 - 2^970\<close> on.  The
  sign of a zero is not kept: no operation of the modelled code tells \<open>-0.0\<close> from
  \<open>0.0\<close>.  A float literal such as \<open>0.1\<close> denotes \<open>fl64 (1 / 10)\<close>.
\<close>

datatype float64 = Finite rat | PosInf | NegInf | NaN

function bit_length :: "int \<Rightarrow> int" where
  "bit_length n = (if n \<le> 0 then 0 else 1 + bit_length (n div 2))"
  by pat_completeness auto
termination
  by (relation "measure nat") auto

declare bit_length.simps [simp del]

definition pow2 :: "int \<Rightarrow> rat" where
  "pow2 e = (if 0 \<le> e then of_int (2 ^ nat e) else 1 / of_int (2 ^ nat (- e)))"

text \<open>Rounding a rational to the nearest integer, a tie to the even one.\<close>

definition round_half_even :: "rat \<Rightarrow> int" where
  "round_half_even q =
     (let f = \<lfloor>q\<rfloor>; d = q - of_int f in
      if d < 1 / 2 then f else if 1 / 2 < d then f + 1 else if even f then f else f + 1)"

text \<open>For \<open>0 < q\<close>, the exponent \<open>e\<close> with \<open>2^e \<le> q < 2^(e+1)\<close>.\<close>

definition ilog2 :: "rat \<Rightarrow> int" where
  "ilog2 q = (if 1 \<le> q then bit_length \<lfloor>q\<rfloor> - 1
              else - bit_length (\<lceil>1 / q\<rceil> - 1))"

definition fl64 :: "rat \<Rightarrow> float64" where
  "fl64 q =
     (if q = 0 then Finite 0
      else let e = max (ilog2 \<bar>q\<bar>) (- 1022);
               m = round_half_even (q / pow2 (e - 52))
           in if 1023 < e \<or> (e = 1023 \<and> 2 ^ 53 \<le> \<bar>m\<bar>)
              then (if 0 < q then PosInf else NegInf)
              else Finite (of_int m * pow2 (e - 52)))"

fun f64_add :: "float64 \<Rightarrow> float64 \<Rightarrow> float64" where
  "f64_add NaN y = NaN"
| "f64_add x NaN = NaN"
| "f64_add (Finite a) (Finite b) = fl64 (a + b)"
| "f64_add PosInf NegInf = NaN"
| "f64_add NegInf PosInf = NaN"
| "f64_add (Finite a) y = y"
| "f64_add x y = x"

definition inf_of_sign :: "bool \<Rightarrow> float64" where
  "inf_of_sign positive = (if positive then PosInf else NegInf)"

fun f64_mul :: "float64 \<Rightarrow> float64 \<Rightarrow> float64" where
  "f64_mul NaN y = NaN"
| "f64_mul x NaN = NaN"
| "f64_mul (Finite a) (Finite b) = fl64 (a * b)"
| "f64_mul (Finite a) y = (if a = 0 then NaN else inf_of_sign ((0 < a) = (y = PosInf)))"
| "f64_mul x (Finite b) = (if b = 0 then NaN else inf_of_sign ((0 < b) = (x = PosInf)))"
| "f64_mul x y = inf_of_sign (x = y)"

text \<open>The comparison \<open><\<close>: false whenever an operand is NaN.\<close>

fun f64_lt :: "float64 \<Rightarrow> float64 \<Rightarrow> bool" where
  "f64_lt NaN y = False"
| "f64_lt x NaN = False"
| "f64_lt (Finite a) (Finite b) = (a < b)"
| "f64_lt x NegInf = False"
| "f64_lt PosInf y = False"
| "f64_lt x y = True"

instantiation float64 :: "{zero, one, plus, times}"
begin

definition zero_float64 :: float64 where
  "zero_float64 = Finite 0"

definition one_float64 :: float64 where
  "one_float64 = Finite 1"

definition plus_float64 :: "float64 \<Rightarrow> float64 \<Rightarrow> float64" where
  "plus_float64 = f64_add"

definition times_float64 :: "float64 \<Rightarrow> float64 \<Rightarrow> float64" where
  "times_float64 = f64_mul"

instance ..

end

subsection \<open>Numbers: int and float\<close>

text \<open>
  The untyped argument of \<open>num_round\<close> is an unbounded \<open>int\<close> or a \<open>float\<close>.  Python
  compares an int with a float by their exact values (\<open>exact\<close>, which does not round).
\<close>

datatype pynum = PyInt int | PyFloat float64

fun exact :: "pynum \<Rightarrow> float64" where
  "exact (PyInt i) = Finite (of_int i)"
| "exact (PyFloat f) = f"

definition py_lt :: "pynum \<Rightarrow> pynum \<Rightarrow> bool" where
  "py_lt x y = f64_lt (exact x) (exact y)"

fun py_abs :: "pynum \<Rightarrow> pynum" where
  "py_abs (PyInt i) = PyInt \<bar>i\<bar>"
| "py_abs (PyFloat (Finite q)) = PyFloat (Finite \<bar>q\<bar>)"
| "py_abs (PyFloat NaN) = PyFloat NaN"
| "py_abs (PyFloat f) = PyFloat PosInf"

text \<open>\<open>bool(x)\<close>: a number is false exactly when it is zero (NaN is true).\<close>

fun py_bool :: "pynum \<Rightarrow> bool" where
  "py_bool (PyInt i) = (i \<noteq> 0)"
| "py_bool (PyFloat f) = (f \<noteq> Finite 0)"

text \<open>\<open>int(x)\<close>: truncation towards zero; NaN and the infinities raise.\<close>

fun py_int :: "pynum \<Rightarrow> error + int" where
  "py_int (PyInt i) = Inr i"
| "py_int (PyFloat (Finite q)) = Inr (if 0 \<le> q then \<lfloor>q\<rfloor> else \<lceil>q\<rceil>)"
| "py_int (PyFloat NaN) = Inl ValueError"
| "py_int (PyFloat f) = Inl OverflowError"

text \<open>\<open>round(x)\<close> with one argument: the nearest int, a tie to the even one.\<close>

fun py_round :: "pynum \<Rightarrow> error + int" where
  "py_round (PyInt i) = Inr i"
| "py_round (PyFloat (Finite q)) = Inr (round_half_even q)"
| "py_round (PyFloat NaN) = Inl ValueError"
| "py_round (PyFloat f) = Inl OverflowError"

text \<open>
  \<open>round(x, n)\<close>.  The exact value is rounded to the nearest multiple of \<open>10^-n\<close>, a tie
  to the even multiple.  An int stays an int (and is unchanged for \<open>n \<ge> 0\<close>).  For a
  float the decimal result is converted back to binary64, which rounds once more;
  CPython returns the float itself for \<open>n > 323\<close>, zero for \<open>n < -308\<close>, and raises
  \<open>OverflowError\<close> when the decimal result is too large for a float.  This is the
  rounding of the builtin \<open>float\<close>.  A \<open>numpy.float64\<close> argument has a method of its own
  (it scales by a power of ten, rounds to an integer and scales back, each step in
  binary64), whose result can differ in the last place; it is not modelled, and the
  properties of \<open>num_round\<close> below are about Python ints and Python floats.
\<close>

definition round_decimal :: "rat \<Rightarrow> int \<Rightarrow> rat" where
  "round_decimal q n =
     (if 0 \<le> n then of_int (round_half_even (q * of_int (10 ^ nat n))) / of_int (10 ^ nat n)
      else of_int (round_half_even (q / of_int (10 ^ nat (- n))) * 10 ^ nat (- n)))"

fun py_round_ndigits :: "pynum \<Rightarrow> int \<Rightarrow> error + pynum" where
  "py_round_ndigits (PyInt i) n =
     Inr (PyInt (if 0 \<le> n then i else \<lfloor>round_decimal (of_int i) n\<rfloor>))"
| "py_round_ndigits (PyFloat (Finite q)) n =
     (if 323 < n then Inr (PyFloat (Finite q))
      else if n < - 308 then Inr (PyFloat (Finite 0))
      else (case fl64 (round_decimal q n) of
              Finite r \<Rightarrow> Inr (PyFloat (Finite r))
            | _ \<Rightarrow> Inl OverflowError))"
| "py_round_ndigits (PyFloat f) n = Inr (PyFloat f)"

subsection \<open>Integers as text\<close>

text \<open>The decimal digits of a non-negative int, \<open>str(i)\<close>, and the format \<open>f'{i:,}'\<close>.\<close>

function digits :: "int \<Rightarrow> string" where
  "digits n = (if n < 10 then [''0123456789'' ! nat n]
               else digits (n div 10) @ [''0123456789'' ! nat (n mod 10)])"
  by pat_completeness auto
termination
  by (relation "measure nat") auto

declare digits.simps [simp del]

definition str_int :: "int \<Rightarrow> string" where
  "str_int i = (if i < 0 then CHR ''-'' # digits (- i) else digits i)"

text \<open>A comma after every third digit, counted from the least significant one.\<close>

fun group3 :: "string \<Rightarrow> string" where
  "group3 (a # b # c # d # ds) = a # b # c # CHR '','' # group3 (d # ds)"
| "group3 ds = ds"

definition format_comma :: "int \<Rightarrow> string" where
  "format_comma i =
     (if i < 0 then CHR ''-'' # rev (group3 (rev (digits (- i))))
      else rev (group3 (rev (digits i))))"

section \<open>docxtk: num_round\<close>

text \<open>
  The three tests are \<open>x > 100\<close>, \<open>x < 100\<close> and \<open>abs(x) > 10\<close>, in this order; the last
  statement \<open>int(round(x))\<close> rounds to an int, on which \<open>int\<close> is the identity.
\<close>

definition num_round :: "pynum \<Rightarrow> error + string" where
  "num_round x =
     (case (if py_lt (PyInt 100) x then
              (case py_int x of
                 Inl e \<Rightarrow> Inl e
               | Inr i \<Rightarrow> py_round_ndigits x (2 - int (length (str_int i))))
            else if py_lt x (PyInt 100) then
              (case py_int x of
                 Inl e \<Rightarrow> Inl e
               | Inr i \<Rightarrow> py_round_ndigits x (3 - int (length (str_int i))))
            else if py_lt (PyInt 10) (py_abs x) then py_round_ndigits x (- 1)
            else Inr x) of
        Inl e \<Rightarrow> Inl e
      | Inr x1 \<Rightarrow>
          (case py_round x1 of
             Inl e \<Rightarrow> Inl e
           | Inr y \<Rightarrow> Inr (format_comma y)))"

subsection \<open>Notions for stating the properties of num_round\<close>

text \<open>
  The number of decimal digits of \<open>\<bar>x\<bar>\<close>, and the nearest multiple of \<open>10^k\<close> to an
  int, a tie going to the even multiple.
\<close>

definition ndigits :: "int \<Rightarrow> nat" where
  "ndigits x = length (digits \<bar>x\<bar>)"

definition round_to :: "int \<Rightarrow> nat \<Rightarrow> int" where
  "round_to x k = round_half_even (of_int x / of_int (10 ^ k)) * 10 ^ k"

text \<open>
  The exact value of a finite number, and the inputs on which \<open>num_round\<close> is shown to
  meet its docstring: every int, and every finite float of magnitude below
  \<open>9.45 * 10^21\<close>.  Up to there every decimal with two significant digits that the
  rounding can produce is a binary64 value; the next one, \<open>9.5 * 10^21\<close>, is not.
\<close>

fun py_value :: "pynum \<Rightarrow> rat" where
  "py_value (PyInt i) = of_int i"
| "py_value (PyFloat (Finite q)) = q"
| "py_value (PyFloat f) = 0"

fun moderate :: "pynum \<Rightarrow> bool" where
  "moderate (PyInt i) = True"
| "moderate (PyFloat (Finite q)) = (\<bar>q\<bar> < 945 * 10 ^ 19)"
| "moderate (PyFloat f) = False"

text \<open>
  The numeric value of a comma-grouped string, \<open>int(s.replace(',', ''))\<close>: how a reader
  of the output of \<open>num_round\<close> gets the number back.
\<close>

definition digit_value :: "char \<Rightarrow> int" where
  "digit_value c = of_char c - 48"

definition int_of_digits :: "string \<Rightarrow> int" where
  "int_of_digits s = foldl (\<lambda>a c. 10 * a + digit_value c) 0 s"

definition comma_value :: "string \<Rightarrow> int" where
  "comma_value s =
     (case filter (\<lambda>c. c \<noteq> CHR '','') s of
        [] \<Rightarrow> 0
      | c # ds \<Rightarrow> if c = CHR ''-'' then - int_of_digits ds else int_of_digits (c # ds))"

section \<open>pptxtk: proportional splitting\<close>

text \<open>
  The element type \<open>'a\<close> of the proportions is any type with \<open>0\<close>, \<open>1\<close>, \<open>+\<close> and \<open>*\<close>.
  Two instances are the code: \<open>float64\<close>, the intended use (float proportions; numpy
  converts an int start or length to binary64 as well), and \<open>rat\<close>, when the caller
  passes \<open>fractions.Fraction\<close> values, which numpy keeps as Python objects and adds and
  multiplies exactly.  Arguments that are all Python ints are a third case, which is not
  modelled: numpy stores them as \<open>int64\<close>, whose arithmetic wraps around (or refuses a
  value that does not fit), while the instance \<open>int\<close> of the definition below computes in
  unbounded integers.  \<open>sum\<close> adds from the left, starting at \<open>0\<close> (CPython from 3.12 on
  adds floats with a correction term; the float sums evaluated below are \<open>1.0\<close> either
  way); \<open>numpy.cumsum\<close> starts at the first element.
\<close>

definition py_sum :: "'a::{zero,plus} list \<Rightarrow> 'a" where
  "py_sum xs = foldl (+) 0 xs"

fun cumsum_from :: "'a::plus \<Rightarrow> 'a list \<Rightarrow> 'a list" where
  "cumsum_from a [] = []"
| "cumsum_from a (x # xs) = (a + x) # cumsum_from (a + x) xs"

definition cumsum :: "'a::plus list \<Rightarrow> 'a list" where
  "cumsum xs = (case xs of [] \<Rightarrow> [] | x # xs' \<Rightarrow> x # cumsum_from x xs')"

definition make_sub_dims ::
  "'a::{zero,one,plus,times} \<Rightarrow> 'a \<Rightarrow> 'a list \<Rightarrow> error + ('a list \<times> 'a list)" where
  "make_sub_dims start len proportions =
     (if py_sum proportions \<noteq> 1 then Inl ValueError
      else let proportions_cum = cumsum proportions;
               starts = start # butlast (map (\<lambda>c. c * len + start) proportions_cum);
               lengths = map (\<lambda>p. p * len) proportions
           in Inr (starts, lengths))"

text \<open>
  \<open>make_col_dims\<close> and \<open>make_row_dims\<close> fill a dictionary with the keys \<open>left0\<close>,
  \<open>width0\<close>, \<open>top0\<close>, \<open>height0\<close>, \<open>left1\<close>, ...; the optional arguments are passed
  explicitly.
\<close>

definition dim_key :: "string \<Rightarrow> nat \<Rightarrow> string" where
  "dim_key name i = name @ str_int (int i)"

fun col_dims_loop ::
  "'a list \<Rightarrow> 'a list \<Rightarrow> 'a \<Rightarrow> 'a \<Rightarrow> nat list \<Rightarrow> (string \<rightharpoonup> 'a) \<Rightarrow> error + (string \<rightharpoonup> 'a)" where
  "col_dims_loop lefts widths top' height [] dims = Inr dims"
| "col_dims_loop lefts widths top' height (i # is) dims =
     (if i < length lefts \<and> i < length widths
      then col_dims_loop lefts widths top' height is
             (dims(dim_key ''left'' i \<mapsto> lefts ! i, dim_key ''width'' i \<mapsto> widths ! i,
                   dim_key ''top'' i \<mapsto> top', dim_key ''height'' i \<mapsto> height))
      else Inl IndexError)"

definition make_col_dims ::
  "'a::{zero,one,plus,times} \<Rightarrow> 'a \<Rightarrow> 'a list \<Rightarrow> 'a \<Rightarrow> 'a \<Rightarrow> error + (string \<rightharpoonup> 'a)" where
  "make_col_dims left width proportions top' height =
     (case make_sub_dims left width proportions of
        Inl e \<Rightarrow> Inl e
      | Inr (lefts, widths) \<Rightarrow>
          col_dims_loop lefts widths top' height [0..<length proportions] Map.empty)"

fun row_dims_loop ::
  "'a list \<Rightarrow> 'a list \<Rightarrow> 'a \<Rightarrow> 'a \<Rightarrow> nat list \<Rightarrow> (string \<rightharpoonup> 'a) \<Rightarrow> error + (string \<rightharpoonup> 'a)" where
  "row_dims_loop tops heights left width [] dims = Inr dims"
| "row_dims_loop tops heights left width (i # is) dims =
     (if i < length tops \<and> i < length heights
      then row_dims_loop tops heights left width is
             (dims(dim_key ''left'' i \<mapsto> left, dim_key ''width'' i \<mapsto> width,
                   dim_key ''top'' i \<mapsto> tops ! i, dim_key ''height'' i \<mapsto> heights ! i))
      else Inl IndexError)"

definition make_row_dims ::
  "'a::{zero,one,plus,times} \<Rightarrow> 'a \<Rightarrow> 'a list \<Rightarrow> 'a \<Rightarrow> 'a \<Rightarrow> error + (string \<rightharpoonup> 'a)" where
  "make_row_dims top' height proportions left width =
     (case make_sub_dims top' height proportions of
        Inl e \<Rightarrow> Inl e
      | Inr (tops, heights) \<Rightarrow>
          row_dims_loop tops heights left width [0..<length proportions] Map.empty)"

section \<open>pptxtk: tables on a slide\<close>

subsection \<open>The part of python-pptx the code drives\<close>

text \<open>
  Lengths are handed to the library as \<open>Cm(x)\<close> and \<open>Pt(x)\<close>; the model keeps them as
  such.  A table cell is the list of its text runs, each with an optional font size.
  Assigning a text to a cell replaces its runs by fresh ones without a size; how the
  library cuts a text into runs is the parameter \<open>runs_of\<close> of the functions below.
  \<open>table.cell(i, j)\<close> and \<open>table.columns[i]\<close> raise \<open>IndexError\<close> out of range; the
  constructors \<open>Cm\<close> and \<open>Pt\<close> and \<open>shapes.add_table\<close> are taken to return normally.
  A slide is the list of the tables on it.
\<close>

datatype 'a cm = Cm 'a

datatype pt = Pt pynum

record run =
  run_text :: string
  run_size :: "pt option"

record 'a pp_table =
  frame_left :: "'a cm"
  frame_top :: "'a cm"
  frame_width :: "'a cm option"
  frame_height :: "'a cm option"
  column_widths :: "'a cm option list"
  cell_rows :: "run list list list"

type_synonym 'a slide = "'a pp_table list"

record dataframe =
  df_index :: "string list"
  df_columns :: "string list"
  df_values :: "string list list"

definition shapes_add_table ::
  "nat \<Rightarrow> nat \<Rightarrow> 'a cm \<Rightarrow> 'a cm \<Rightarrow> 'a cm option \<Rightarrow> 'a cm option \<Rightarrow> 'a pp_table" where
  "shapes_add_table nrows ncols l t w h =
     \<lparr>frame_left = l, frame_top = t, frame_width = w, frame_height = h,
      column_widths = replicate ncols None,
      cell_rows = replicate nrows (replicate ncols [])\<rparr>"

definition set_cell_text ::
  "(string \<Rightarrow> string list) \<Rightarrow> 'a pp_table \<Rightarrow> nat \<Rightarrow> nat \<Rightarrow> string \<Rightarrow> 'a pp_table result" where
  "set_cell_text runs_of t i j s =
     (if i < length (cell_rows t) \<and> j < length (cell_rows t ! i)
      then Inr (t\<lparr>cell_rows := (cell_rows t)
                  [i := (cell_rows t ! i)
                     [j := map (\<lambda>r. \<lparr>run_text = r, run_size = None\<rparr>) (runs_of s)]]\<rparr>)
      else Inl (IndexError, t))"

definition set_column_width :: "'a pp_table \<Rightarrow> nat \<Rightarrow> 'a cm \<Rightarrow> 'a pp_table result" where
  "set_column_width t i w =
     (if i < length (column_widths t)
      then Inr (t\<lparr>column_widths := (column_widths t)[i := Some w]\<rparr>)
      else Inl (IndexError, t))"

subsection \<open>The helpers of pptxtk\<close>

text \<open>\<open>_get_cm\<close>: a width or height that is false (zero) becomes \<open>None\<close>.\<close>

definition get_cm ::
  "'a::zero \<Rightarrow> 'a \<Rightarrow> 'a \<Rightarrow> 'a \<Rightarrow> 'a cm \<times> 'a cm \<times> 'a cm option \<times> 'a cm option" where
  "get_cm left top' width height =
     (Cm left, Cm top',
      if width \<noteq> 0 then Some (Cm width) else None,
      if height \<noteq> 0 then Some (Cm height) else None)"

text \<open>The loop \<open>for i, proportion in enumerate(col_proportions)\<close>.\<close>

fun column_widths_loop ::
  "'a::times \<Rightarrow> (nat \<times> 'a) list \<Rightarrow> 'a pp_table \<Rightarrow> 'a pp_table result" where
  "column_widths_loop width [] t = Inr t"
| "column_widths_loop width ((i, proportion) # ps) t =
     (case set_column_width t i (Cm (width * proportion)) of
        Inl e \<Rightarrow> Inl e
      | Inr t' \<Rightarrow> column_widths_loop width ps t')"

text \<open>\<open>_populate_table\<close>: the corner cell, the two header loops, then the values column by column.\<close>

fun header_row_loop ::
  "(string \<Rightarrow> string list) \<Rightarrow> (nat \<times> string) list \<Rightarrow> 'a pp_table \<Rightarrow> 'a pp_table result" where
  "header_row_loop runs_of [] t = Inr t"
| "header_row_loop runs_of ((j, col) # cs) t =
     (case set_cell_text runs_of t 0 (j + 1) col of
        Inl e \<Rightarrow> Inl e
      | Inr t' \<Rightarrow> header_row_loop runs_of cs t')"

fun header_col_loop ::
  "(string \<Rightarrow> string list) \<Rightarrow> (nat \<times> string) list \<Rightarrow> 'a pp_table \<Rightarrow> 'a pp_table result" where
  "header_col_loop runs_of [] t = Inr t"
| "header_col_loop runs_of ((i, row) # rs) t =
     (case set_cell_text runs_of t (i + 1) 0 row of
        Inl e \<Rightarrow> Inl e
      | Inr t' \<Rightarrow> header_col_loop runs_of rs t')"

fun values_col_loop ::
  "(string \<Rightarrow> string list) \<Rightarrow> string list list \<Rightarrow> nat \<Rightarrow> nat list \<Rightarrow> 'a pp_table \<Rightarrow>
   'a pp_table result" where
  "values_col_loop runs_of vals j [] t = Inr t"
| "values_col_loop runs_of vals j (i # is) t =
     (if i < length vals \<and> j < length (vals ! i)
      then (case set_cell_text runs_of t (i + 1) (j + 1) (vals ! i ! j) of
              Inl e \<Rightarrow> Inl e
            | Inr t' \<Rightarrow> values_col_loop runs_of vals j is t')
      else Inl (IndexError, t))"

fun values_loop ::
  "(string \<Rightarrow> string list) \<Rightarrow> string list list \<Rightarrow> nat list \<Rightarrow> nat list \<Rightarrow> 'a pp_table \<Rightarrow>
   'a pp_table result" where
  "values_loop runs_of vals [] is t = Inr t"
| "values_loop runs_of vals (j # js) is t =
     (case values_col_loop runs_of vals j is t of
        Inl e \<Rightarrow> Inl e
      | Inr t' \<Rightarrow> values_loop runs_of vals js is t')"

definition populate_table ::
  "(string \<Rightarrow> string list) \<Rightarrow> 'a pp_table \<Rightarrow> string list \<Rightarrow> string list \<Rightarrow> string list list \<Rightarrow>
   string \<Rightarrow> 'a pp_table result" where
  "populate_table runs_of t cols rows vals first_cell =
     (case set_cell_text runs_of t 0 0 first_cell of
        Inl e \<Rightarrow> Inl e
      | Inr t0 \<Rightarrow>
         (case header_row_loop runs_of (enumerate 0 cols) t0 of
            Inl e \<Rightarrow> Inl e
          | Inr t1 \<Rightarrow>
             (case header_col_loop runs_of (enumerate 0 rows) t1 of
                Inl e \<Rightarrow> Inl e
              | Inr t2 \<Rightarrow> values_loop runs_of vals [0..<length cols] [0..<length rows] t2)))"

text \<open>\<open>_set_table_font_size\<close>: every run of every cell gets the size \<open>Pt(pt)\<close>.\<close>

definition set_table_font_size :: "'a pp_table \<Rightarrow> pynum \<Rightarrow> 'a pp_table" where
  "set_table_font_size t p =
     t\<lparr>cell_rows := map (map (map (\<lambda>r. r\<lparr>run_size := Some (Pt p)\<rparr>))) (cell_rows t)\<rparr>"

subsection \<open>_add_table_from_lst and add_table_from_df\<close>

text \<open>
  \<open>col_proportions\<close> is \<open>None\<close> when the caller omits it.  The table is added to the
  slide first; then \<open>sum(col_proportions)\<close> is evaluated inside the assertion, which is a
  \<open>TypeError\<close> on \<open>None\<close>; only after that comes the test \<open>if col_proportions\<close>.
\<close>

definition add_table_from_lst ::
  "(string \<Rightarrow> string list) \<Rightarrow> 'a::{zero,one,plus,times} slide \<Rightarrow> string list \<Rightarrow> string list \<Rightarrow>
   string list list \<Rightarrow> 'a \<Rightarrow> 'a \<Rightarrow> 'a \<Rightarrow> 'a \<Rightarrow> string \<Rightarrow> pynum \<Rightarrow> 'a list option \<Rightarrow>
   'a slide result" where
  "add_table_from_lst runs_of slide cols rows vals left top' width height first_cell font_size
       col_proportions =
     (let nrows = length rows + 1;
          ncols = length cols + 1;
          (left_cm, top_cm, width_cm, height_cm) = get_cm left top' width height;
          table = shapes_add_table nrows ncols left_cm top_cm width_cm height_cm
      in case col_proportions of
           None \<Rightarrow> Inl (TypeError, slide @ [table])
         | Some ps \<Rightarrow>
             if py_sum ps \<noteq> 1 then Inl (AssertionError, slide @ [table])
             else
               (case (if ps \<noteq> [] then column_widths_loop width (enumerate 0 ps) table
                      else Inr table) of
                  Inl (e, t) \<Rightarrow> Inl (e, slide @ [t])
                | Inr t1 \<Rightarrow>
                   (case populate_table runs_of t1 cols rows vals first_cell of
                      Inl (e, t) \<Rightarrow> Inl (e, slide @ [t])
                    | Inr t2 \<Rightarrow>
                        Inr (slide @ [if py_bool font_size then set_table_font_size t2 font_size
                                      else t2]))))"

text \<open>
  The slide-deck \<open>add_table_from_df\<close>: it takes a \<open>font_size\<close> and passes the literal
  \<open>12\<close> on.
\<close>

definition pptx_add_table_from_df ::
  "(string \<Rightarrow> string list) \<Rightarrow> 'a::{zero,one,plus,times} slide \<Rightarrow> dataframe \<Rightarrow>
   'a \<Rightarrow> 'a \<Rightarrow> 'a \<Rightarrow> 'a \<Rightarrow> 'a list option \<Rightarrow> string \<Rightarrow> pynum \<Rightarrow> 'a slide result" where
  "pptx_add_table_from_df runs_of slide df left top' width height col_proportions first_cell
       font_size =
     add_table_from_lst runs_of slide (df_columns df) (df_index df) (df_values df)
       left top' width height first_cell (PyInt 12) col_proportions"

section \<open>Properties of docxtk\<close>

subsection \<open>The loops of add_table_from_list\<close>

text \<open>
  The table has one more row and one more column than the data, so every cell the loops
  address exists; a loop can only fail on \<open>rows[i]\<close> or on \<open>data[i][j]\<close>.
\<close>

lemma cell_set_ok:
  "c + r * column_count t < length (tbl_cells t) \<Longrightarrow>
   \<exists>t'. cell_set t r c s a = Inr t' \<and> column_count t' = column_count t
        \<and> length (tbl_cells t') = length (tbl_cells t)"
  by (simp add: cell_set_def)

lemma column_headers_loop_ok:
  "\<forall>j\<in>set js. j < length columns \<and> j + 1 < length (tbl_cells t) \<Longrightarrow>
   \<exists>t'. column_headers_loop columns js t = Inr t' \<and> column_count t' = column_count t
        \<and> length (tbl_cells t') = length (tbl_cells t)"
proof (induction js arbitrary: t)
  case Nil
  then show ?case by simp
next
  case (Cons j js)
  then have "(j + 1) + 0 * column_count t < length (tbl_cells t)" by simp
  from cell_set_ok [OF this, of "columns ! j" CENTER] obtain t1 where
    t1: "cell_set t 0 (j + 1) (columns ! j) CENTER = Inr t1" "column_count t1 = column_count t"
    "length (tbl_cells t1) = length (tbl_cells t)"
    by blast
  from Cons.prems t1 have "\<forall>j\<in>set js. j < length columns \<and> j + 1 < length (tbl_cells t1)"
    by simp
  from Cons.IH [OF this] t1 Cons.prems show ?case by auto
qed

lemma row_headers_loop_ok:
  "\<forall>i\<in>set is. i < length rows \<and> (i + 1) * column_count t < length (tbl_cells t) \<Longrightarrow>
   \<exists>t'. row_headers_loop rows is t = Inr t' \<and> column_count t' = column_count t
        \<and> length (tbl_cells t') = length (tbl_cells t)"
proof (induction "is" arbitrary: t)
  case Nil
  then show ?case by simp
next
  case (Cons i "is")
  then have "0 + (i + 1) * column_count t < length (tbl_cells t)" by simp
  from cell_set_ok [OF this, of "rows ! i" LEFT] obtain t1 where
    t1: "cell_set t (i + 1) 0 (rows ! i) LEFT = Inr t1" "column_count t1 = column_count t"
    "length (tbl_cells t1) = length (tbl_cells t)"
    by blast
  from Cons.prems t1
  have "\<forall>i\<in>set is. i < length rows \<and> (i + 1) * column_count t1 < length (tbl_cells t1)"
    by simp
  from Cons.IH [OF this] t1 Cons.prems show ?case by auto
qed

lemma row_headers_loop_short:
  "\<exists>i\<in>set is. \<not> i < length rows \<Longrightarrow>
   \<forall>i\<in>set is. (i + 1) * column_count t < length (tbl_cells t) \<Longrightarrow>
   \<exists>t'. row_headers_loop rows is t = Inl (IndexError, t')"
proof (induction "is" arbitrary: t)
  case Nil
  then show ?case by simp
next
  case (Cons i "is")
  show ?case
  proof (cases "i < length rows")
    case False
    then show ?thesis by simp
  next
    case True
    from Cons.prems(2) have "0 + (i + 1) * column_count t < length (tbl_cells t)" by simp
    from cell_set_ok [OF this, of "rows ! i" LEFT] obtain t1 where
      t1: "cell_set t (i + 1) 0 (rows ! i) LEFT = Inr t1" "column_count t1 = column_count t"
      "length (tbl_cells t1) = length (tbl_cells t)"
      by blast
    from Cons.prems True have a: "\<exists>i\<in>set is. \<not> i < length rows" by auto
    from Cons.prems(2) t1
    have b: "\<forall>i\<in>set is. (i + 1) * column_count t1 < length (tbl_cells t1)" by simp
    from Cons.IH [OF a b] t1 True show ?thesis by auto
  qed
qed

lemma data_row_loop_ok:
  "i < length data \<Longrightarrow>
   \<forall>j\<in>set js. j < length (data ! i) \<and> (j + 1) + (i + 1) * column_count t < length (tbl_cells t) \<Longrightarrow>
   \<exists>t'. data_row_loop str data i js t = Inr t' \<and> column_count t' = column_count t
        \<and> length (tbl_cells t') = length (tbl_cells t)"
proof (induction js arbitrary: t)
  case Nil
  then show ?case by simp
next
  case (Cons j js)
  then have "(j + 1) + (i + 1) * column_count t < length (tbl_cells t)" by simp
  from cell_set_ok [OF this, of "str (data ! i ! j)" RIGHT] obtain t1 where
    t1: "cell_set t (i + 1) (j + 1) (str (data ! i ! j)) RIGHT = Inr t1"
    "column_count t1 = column_count t" "length (tbl_cells t1) = length (tbl_cells t)"
    by blast
  from Cons.prems t1
  have "\<forall>j\<in>set js. j < length (data ! i)
          \<and> (j + 1) + (i + 1) * column_count t1 < length (tbl_cells t1)"
    by simp
  from Cons.IH [OF Cons.prems(1) this] t1 Cons.prems show ?case by auto
qed

lemma data_row_loop_short:
  "\<exists>j\<in>set js. \<not> j < length (data ! i) \<Longrightarrow>
   \<forall>j\<in>set js. (j + 1) + (i + 1) * column_count t < length (tbl_cells t) \<Longrightarrow>
   \<exists>t'. data_row_loop str data i js t = Inl (IndexError, t')"
proof (induction js arbitrary: t)
  case Nil
  then show ?case by simp
next
  case (Cons j js)
  show ?case
  proof (cases "i < length data \<and> j < length (data ! i)")
    case False
    then show ?thesis by auto
  next
    case True
    from Cons.prems(2) have "(j + 1) + (i + 1) * column_count t < length (tbl_cells t)" by simp
    from cell_set_ok [OF this, of "str (data ! i ! j)" RIGHT] obtain t1 where
      t1: "cell_set t (i + 1) (j + 1) (str (data ! i ! j)) RIGHT = Inr t1"
      "column_count t1 = column_count t" "length (tbl_cells t1) = length (tbl_cells t)"
      by blast
    from Cons.prems True have a: "\<exists>j\<in>set js. \<not> j < length (data ! i)" by auto
    from Cons.prems(2) t1
    have b: "\<forall>j\<in>set js. (j + 1) + (i + 1) * column_count t1 < length (tbl_cells t1)" by simp
    from Cons.IH [OF a b] t1 True show ?thesis by auto
  qed
qed

lemma data_loop_ok:
  "\<forall>i\<in>set is. i < length data \<and>
      (\<forall>j\<in>set js. j < length (data ! i)
         \<and> (j + 1) + (i + 1) * column_count t < length (tbl_cells t)) \<Longrightarrow>
   \<exists>t'. data_loop str data is js t = Inr t'"
proof (induction "is" arbitrary: t)
  case Nil
  then show ?case by simp
next
  case (Cons i "is")
  then have "i < length data"
    "\<forall>j\<in>set js. j < length (data ! i) \<and> (j + 1) + (i + 1) * column_count t < length (tbl_cells t)"
    by simp_all
  from data_row_loop_ok [OF this, of str] obtain t1 where
    t1: "data_row_loop str data i js t = Inr t1" "column_count t1 = column_count t"
    "length (tbl_cells t1) = length (tbl_cells t)"
    by blast
  from Cons.prems t1
  have "\<forall>i\<in>set is. i < length data \<and>
      (\<forall>j\<in>set js. j < length (data ! i)
         \<and> (j + 1) + (i + 1) * column_count t1 < length (tbl_cells t1))"
    by simp
  from Cons.IH [OF this] t1 show ?case by auto
qed

lemma data_loop_short:
  "\<forall>i\<in>set is. i < length data \<Longrightarrow>
   \<exists>i\<in>set is. \<exists>j\<in>set js. \<not> j < length (data ! i) \<Longrightarrow>
   \<forall>i\<in>set is. \<forall>j\<in>set js. (j + 1) + (i + 1) * column_count t < length (tbl_cells t) \<Longrightarrow>
   \<exists>t'. data_loop str data is js t = Inl (IndexError, t')"
proof (induction "is" arbitrary: t)
  case Nil
  then show ?case by simp
next
  case (Cons i "is")
  from Cons.prems(3)
  have inr: "\<forall>j\<in>set js. (j + 1) + (i + 1) * column_count t < length (tbl_cells t)" by simp
  show ?case
  proof (cases "\<exists>j\<in>set js. \<not> j < length (data ! i)")
    case True
    from data_row_loop_short [OF True inr, of str] show ?thesis by auto
  next
    case False
    with inr Cons.prems(1)
    have "i < length data" "\<forall>j\<in>set js. j < length (data ! i)
            \<and> (j + 1) + (i + 1) * column_count t < length (tbl_cells t)"
      by auto
    from data_row_loop_ok [OF this, of str] obtain t1 where
      t1: "data_row_loop str data i js t = Inr t1" "column_count t1 = column_count t"
      "length (tbl_cells t1) = length (tbl_cells t)"
      by blast
    from Cons.prems(1) have a: "\<forall>i\<in>set is. i < length data" by simp
    from Cons.prems(2) False have b: "\<exists>i\<in>set is. \<exists>j\<in>set js. \<not> j < length (data ! i)" by auto
    from Cons.prems(3) t1
    have c: "\<forall>i\<in>set is. \<forall>j\<in>set js. (j + 1) + (i + 1) * column_count t1 < length (tbl_cells t1)"
      by simp
    from Cons.IH [OF a b c] t1 show ?thesis by auto
  qed
qed

lemma table_index_in_range:
  "i < nr \<Longrightarrow> j < nc \<Longrightarrow> (j + 1) + (i + 1) * (nc + 1) < (nr + 1) * ((nc::nat) + 1)"
proof -
  assume i: "i < nr" and j: "j < nc"
  from i have "(i + 1) + 1 \<le> nr + 1" by simp
  then have "((i + 1) + 1) * (nc + 1) \<le> (nr + 1) * (nc + 1)" by (rule mult_le_mono1)
  moreover have "(j + 1) + (i + 1) * (nc + 1) < ((i + 1) + 1) * (nc + 1)" using j by simp
  ultimately show ?thesis by linarith
qed

subsection \<open>What add_table_from_list checks\<close>

text \<open>
  A first data row whose width differs from the number of column headers fails the first
  assertion; only the title paragraph has been added.
\<close>

lemma add_table_from_list_column_mismatch:
  "data = row0 # rest \<Longrightarrow> length columns \<noteq> length row0 \<Longrightarrow>
   add_table_from_list str doc title columns rows data footnote
     = Inl (AssertionError, doc @ [Para title ''Footer''])"
  by (simp add: add_table_from_list_def)

text \<open>
  With a non-empty grid whose first row is as wide as the column headers, the call
  returns exactly when there are at least as many row headers as data rows and every data
  row has at least as many cells as there are column headers.  Otherwise it raises
  \<open>IndexError\<close> while it fills the table.  Surplus row headers and surplus cells are
  not noticed.
\<close>

lemma add_table_from_list_outcome:
  assumes data: "data = row0 # rest" and cols: "length columns = length row0"
  shows "if length data \<le> length rows \<and> (\<forall>row\<in>set data. length columns \<le> length row)
         then \<exists>d. add_table_from_list str doc title columns rows data footnote = Inr d
         else \<exists>d. add_table_from_list str doc title columns rows data footnote
                    = Inl (IndexError, d)"
proof -
  define nr where "nr = length data"
  define nc where "nc = length columns"
  define t0 where "t0 = add_table (nr + 1) (nc + 1) ''Normal Table''"
  have t0: "column_count t0 = nc + 1" "length (tbl_cells t0) = (nr + 1) * (nc + 1)"
    by (simp_all add: t0_def add_table_def)
  have "\<forall>j\<in>set [0..<nc]. j < length columns \<and> j + 1 < length (tbl_cells t0)"
  proof
    fix j assume "j \<in> set [0..<nc]"
    then have j: "j < nc" by simp
    have "(nc + 1) * 1 \<le> (nc + 1) * (nr + 1)" by (rule mult_le_mono2) simp
    with j show "j < length columns \<and> j + 1 < length (tbl_cells t0)"
      by (simp add: t0 nc_def)
  qed
  from column_headers_loop_ok [OF this] obtain t1 where
    t1: "column_headers_loop columns [0..<nc] t0 = Inr t1"
    "column_count t1 = nc + 1" "length (tbl_cells t1) = (nr + 1) * (nc + 1)"
    using t0 by auto
  have rows_range: "\<forall>i\<in>set [0..<nr]. (i + 1) * column_count t1 < length (tbl_cells t1)"
  proof
    fix i assume "i \<in> set [0..<nr]"
    then have "i + 1 < nr + 1" by simp
    then have "(i + 1) * (nc + 1) < (nr + 1) * (nc + 1)"
      by (simp only: mult_less_cancel2) simp
    then show "(i + 1) * column_count t1 < length (tbl_cells t1)"
      by (simp only: t1)
  qed
  have cells_range: "(j + 1) + (i + 1) * (nc + 1) < (nr + 1) * (nc + 1)"
    if "i < nr" "j < nc" for i j
    using that by (rule table_index_in_range)
  note defs = add_table_from_list_def Let_def nr_def nc_def t0_def data cols
  show ?thesis
  proof (cases "length data \<le> length rows")
    case False
    then have "\<exists>i\<in>set [0..<nr]. \<not> i < length rows"
      by (auto simp: nr_def intro!: bexI [of _ "length rows"])
    from row_headers_loop_short [OF this rows_range] obtain t' where
      "row_headers_loop rows [0..<nr] t1 = Inl (IndexError, t')"
      by blast
    with False t1(1) show ?thesis by (simp add: defs)
  next
    case True
    then have "\<forall>i\<in>set [0..<nr]. i < length rows \<and> (i + 1) * column_count t1 < length (tbl_cells t1)"
      using rows_range by (simp add: nr_def)
    from row_headers_loop_ok [OF this] obtain t2 where
      t2: "row_headers_loop rows [0..<nr] t1 = Inr t2"
      "column_count t2 = nc + 1" "length (tbl_cells t2) = (nr + 1) * (nc + 1)"
      using t1 by auto
    show ?thesis
    proof (cases "\<forall>row\<in>set data. length columns \<le> length row")
      case all: True
      have "\<forall>i\<in>set [0..<nr]. i < length data \<and>
              (\<forall>j\<in>set [0..<nc]. j < length (data ! i)
                 \<and> (j + 1) + (i + 1) * column_count t2 < length (tbl_cells t2))"
      proof (intro ballI conjI)
        fix i assume "i \<in> set [0..<nr]"
        then show i: "i < length data" by (simp add: nr_def)
        fix j assume "j \<in> set [0..<nc]"
        then have j: "j < nc" by simp
        from all i have "length columns \<le> length (data ! i)" by simp
        with j show "j < length (data ! i)" by (simp add: nc_def)
        from i j show "(j + 1) + (i + 1) * column_count t2 < length (tbl_cells t2)"
          using cells_range [of i j] by (simp add: t2 nr_def)
      qed
      from data_loop_ok [OF this, of str] obtain t3 where
        "data_loop str data [0..<nr] [0..<nc] t2 = Inr t3"
        by blast
      with True all t1(1) t2(1) show ?thesis by (simp add: defs)
    next
      case some: False
      then obtain i where i: "i < length data" "\<not> length columns \<le> length (data ! i)"
        by (auto simp: in_set_conv_nth)
      have "i \<in> set [0..<nr]" using i(1) by (simp add: nr_def)
      moreover have "length (data ! i) \<in> set [0..<nc]" using i(2) by (simp add: nc_def)
      moreover have "\<not> length (data ! i) < length (data ! i)" by simp
      ultimately have "\<exists>i\<in>set [0..<nr]. \<exists>j\<in>set [0..<nc]. \<not> j < length (data ! i)"
        by blast
      moreover have "\<forall>i\<in>set [0..<nr]. i < length data" by (simp add: nr_def)
      moreover have "\<forall>i\<in>set [0..<nr]. \<forall>j\<in>set [0..<nc].
            (j + 1) + (i + 1) * column_count t2 < length (tbl_cells t2)"
        using cells_range by (simp add: t2)
      ultimately obtain t' where
        "data_loop str data [0..<nr] [0..<nc] t2 = Inl (IndexError, t')"
        using data_loop_short [of "[0..<nr]" data "[0..<nc]" t2 str] by blast
      with some t1(1) t2(1) show ?thesis by (simp add: defs)
    qed
  qed
qed

text \<open>
  C10.  With an empty data grid \<open>add_table_from_list\<close> raises \<open>IndexError\<close>, from
  \<open>data[0]\<close> in the first assertion, whatever the headers are: only the title paragraph
  has been added, and neither assertion message is reached.  A normal return therefore
  needs at least one data row.
\<close>

theorem add_table_from_list_empty_data:
  "add_table_from_list str doc title columns rows [] footnote
     = Inl (IndexError, doc @ [Para title ''Footer''])"
  by (simp add: add_table_from_list_def)

text \<open>
  C1.  The headers \<open>columns = ['c']\<close>, \<open>rows = ['r1', 'r2']\<close> and the one-row grid
  \<open>data = [['x']]\<close> have two row headers for one data row.  The call returns normally:
  the row-count assertion compares \<open>len(data)\<close> with itself, so it cannot fail, and the
  surplus row header is dropped without notice.
\<close>

theorem add_table_from_list_surplus_row_header:
  "add_table_from_list id [] ''T'' [''c''] [''r1'', ''r2''] [[''x'']] None
     = Inr [Para ''T'' ''Footer'',
            Tbl \<lparr>tbl_style = ''Normal Table'', column_count = 2,
                 tbl_cells = [\<lparr>cell_text = [], cell_alignment = None\<rparr>,
                              \<lparr>cell_text = ''c'', cell_alignment = Some CENTER\<rparr>,
                              \<lparr>cell_text = ''r1'', cell_alignment = Some LEFT\<rparr>,
                              \<lparr>cell_text = ''x'', cell_alignment = Some RIGHT\<rparr>]\<rparr>]"
  by (simp add: add_table_from_list_def add_table_def cell_set_def)

section \<open>Properties of num_round\<close>

text \<open>
  C6.  \<open>num_round(12345)\<close> is the string \<open>12,000\<close> and \<open>num_round(7)\<close> is the string
  \<open>7\<close>.
\<close>

theorem num_round_examples:
  "num_round (PyInt 12345) = Inr ''12,000'' \<and> num_round (PyInt 7) = Inr ''7''"
  by code_simp

subsection \<open>Digits and rounding\<close>

lemma length_digits_pos: "0 < length (digits n)"
  by (subst digits.simps) simp

lemma digits_upper: "0 \<le> n \<Longrightarrow> n < 10 ^ length (digits n)"
proof (induction n rule: digits.induct)
  case (1 n)
  show ?case
  proof (cases "n < 10")
    case True
    then show ?thesis by (subst digits.simps) simp
  next
    case False
    with 1 have "n div 10 < 10 ^ length (digits (n div 10))" by simp
    then have "n < 10 * 10 ^ length (digits (n div 10))" by linarith
    with False show ?thesis by (subst digits.simps) simp
  qed
qed

lemma digits_lower: "0 < n \<Longrightarrow> 10 ^ (length (digits n) - 1) \<le> n"
proof (induction n rule: digits.induct)
  case (1 n)
  show ?case
  proof (cases "n < 10")
    case True
    with 1 show ?thesis by (subst digits.simps) simp
  next
    case False
    with 1 have ih: "10 ^ (length (digits (n div 10)) - 1) \<le> n div 10" by simp
    have "0 < length (digits (n div 10))" by (rule length_digits_pos)
    then have "(10::int) ^ length (digits (n div 10)) = 10 * 10 ^ (length (digits (n div 10)) - 1)"
      by (cases "length (digits (n div 10))") simp_all
    with ih have "10 ^ length (digits (n div 10)) \<le> n" by linarith
    with False show ?thesis by (subst digits.simps) simp
  qed
qed

lemma length_digits_unique:
  assumes "0 < j" "10 ^ (j - 1) \<le> n" "n < 10 ^ j"
  shows "length (digits n) = j"
proof -
  have n: "0 < n" using assms(2) by (smt (verit) zero_less_power)
  let ?d = "length (digits n)"
  have u: "n < 10 ^ ?d" using n by (simp add: digits_upper)
  have l: "10 ^ (?d - 1) \<le> n" using n by (rule digits_lower)
  have "(10::int) ^ (j - 1) < 10 ^ ?d" using assms(2) u by linarith
  then have a: "j - 1 < ?d" by simp
  have "(10::int) ^ (?d - 1) < 10 ^ j" using assms(3) l by linarith
  then have b: "?d - 1 < j" by simp
  from a b assms(1) show ?thesis by linarith
qed

lemma round_half_even_of_int [simp]: "round_half_even (of_int z) = z"
  by (simp add: round_half_even_def)

lemma round_half_even_ge: "of_int a \<le> q \<Longrightarrow> a \<le> round_half_even q"
proof -
  assume "of_int a \<le> q"
  then have "a \<le> \<lfloor>q\<rfloor>" by (simp add: le_floor_iff)
  then show ?thesis by (auto simp: round_half_even_def Let_def)
qed

lemma round_half_even_le: "q \<le> of_int b \<Longrightarrow> round_half_even q \<le> b"
proof -
  assume h: "q \<le> of_int b"
  show ?thesis
  proof (cases "q = of_int \<lfloor>q\<rfloor>")
    case True
    then have "round_half_even q = \<lfloor>q\<rfloor>"
      by (metis round_half_even_of_int)
    moreover have "\<lfloor>q\<rfloor> \<le> b" using h by (simp add: floor_le_iff)
    ultimately show ?thesis by simp
  next
    case False
    have "of_int \<lfloor>q\<rfloor> \<le> q" by (rule of_int_floor_le)
    with False have "of_int \<lfloor>q\<rfloor> < q" by (metis order_le_less)
    with h have "of_int \<lfloor>q\<rfloor> < (of_int b :: rat)" by linarith
    then have "\<lfloor>q\<rfloor> < b" by simp
    then show ?thesis by (auto simp: round_half_even_def Let_def)
  qed
qed

lemma round_half_even_near: "\<bar>q - of_int (round_half_even q)\<bar> \<le> 1 / 2"
proof -
  have "of_int \<lfloor>q\<rfloor> \<le> q" "q < of_int \<lfloor>q\<rfloor> + 1" by linarith+
  then show ?thesis
    by (auto simp: round_half_even_def Let_def abs_le_iff)
qed

lemma round_half_even_tie:
  "\<bar>q - of_int (round_half_even q)\<bar> < 1 / 2 \<or> even (round_half_even q)"
proof -
  have "of_int \<lfloor>q\<rfloor> \<le> q" "q < of_int \<lfloor>q\<rfloor> + 1" by linarith+
  then show ?thesis
    by (auto simp: round_half_even_def Let_def abs_less_iff)
qed


lemma ndigits_pos: "0 < ndigits x"
  unfolding ndigits_def by (rule length_digits_pos)

lemma ndigits_upper: "\<bar>x\<bar> < 10 ^ ndigits x"
  by (simp add: ndigits_def digits_upper)

lemma ndigits_lower: "x \<noteq> 0 \<Longrightarrow> 10 ^ (ndigits x - 1) \<le> \<bar>x\<bar>"
  using digits_lower [of "\<bar>x\<bar>"] by (simp add: ndigits_def)

lemma ndigits_unique: "0 < j \<Longrightarrow> 10 ^ (j - 1) \<le> \<bar>x\<bar> \<Longrightarrow> \<bar>x\<bar> < 10 ^ j \<Longrightarrow> ndigits x = j"
  unfolding ndigits_def by (rule length_digits_unique)

lemma ndigits_small: "\<bar>x\<bar> < 100 \<Longrightarrow> ndigits x \<le> 2"
proof (cases "x = 0")
  case True
  then show ?thesis by (simp add: ndigits_def digits.simps)
next
  case False
  assume "\<bar>x\<bar> < 100"
  with ndigits_lower [OF False] have "(10::int) ^ (ndigits x - 1) < 10 ^ 2" by simp
  then have "ndigits x - 1 < 2" by (simp only: power_strict_increasing_iff)
  then show ?thesis by simp
qed

lemma ndigits_large: "100 \<le> \<bar>x\<bar> \<Longrightarrow> 3 \<le> ndigits x"
proof -
  assume "100 \<le> \<bar>x\<bar>"
  with ndigits_upper [of x] have "(10::int) ^ 2 < 10 ^ ndigits x" by simp
  then have "2 < ndigits x" by (simp only: power_strict_increasing_iff)
  then show ?thesis by simp
qed

lemma length_str_int: "length (str_int x) = (if x < 0 then Suc (ndigits x) else ndigits x)"
  by (simp add: str_int_def ndigits_def)

lemma round_to_0 [simp]: "round_to x 0 = x"
  by (simp add: round_to_def)

lemma floor_of_int_times_power [simp]: "\<lfloor>(of_int a :: rat) * 10 ^ k\<rfloor> = a * 10 ^ k"
proof -
  have "(of_int a :: rat) * 10 ^ k = of_int (a * 10 ^ k)" by simp
  then show ?thesis by (simp only: floor_of_int)
qed

lemma floor_of_int_times_numeral [simp]:
  "\<lfloor>(of_int a :: rat) * numeral n\<rfloor> = a * numeral n"
proof -
  have "(of_int a :: rat) * numeral n = of_int (a * numeral n)" by simp
  then show ?thesis by (simp only: floor_of_int)
qed

lemma py_round_ndigits_int_neg:
  "n < 0 \<Longrightarrow> py_round_ndigits (PyInt i) n = Inr (PyInt (round_to i (nat (- n))))"
  by (simp add: round_decimal_def round_to_def)

lemma py_lt_int [simp]: "py_lt (PyInt a) (PyInt b) = (a < b)"
  by (simp add: py_lt_def)

lemma num_round_int_eq:
  "num_round (PyInt x) = Inr (format_comma (round_to x (ndigits x - 2)))"
proof -
  consider (big) "100 < x" | (hundred) "x = 100" | (small) "0 \<le> x" "x < 100"
    | (neg_small) "x < 0" "- 100 < x" | (neg_big) "x \<le> - 100"
    by linarith
  then show ?thesis
  proof cases
    case big
    then have d: "3 \<le> ndigits x" by (intro ndigits_large) simp
    then have "2 - int (ndigits x) < 0" by simp
    moreover have "nat (- (2 - int (ndigits x))) = ndigits x - 2" by simp
    ultimately show ?thesis
      using big by (simp add: num_round_def length_str_int py_round_ndigits_int_neg del: py_round_ndigits.simps)
  next
    case hundred
    have "ndigits 100 = 3" by (rule ndigits_unique) simp_all
    with hundred show ?thesis
      by (simp add: num_round_def round_decimal_def round_to_def)
  next
    case small
    then have d: "ndigits x \<le> 2" by (intro ndigits_small) simp
    then have "0 \<le> 3 - int (ndigits x)" by simp
    with small d show ?thesis
      by (simp add: num_round_def length_str_int)
  next
    case neg_small
    then have d: "ndigits x \<le> 2" by (intro ndigits_small) simp
    then have "0 \<le> 3 - int (Suc (ndigits x))" by simp
    with neg_small d show ?thesis
      by (simp add: num_round_def length_str_int)
  next
    case neg_big
    then have d: "3 \<le> ndigits x" by (intro ndigits_large) simp
    then have "3 - int (Suc (ndigits x)) < 0" by simp
    moreover have "nat (- (3 - int (Suc (ndigits x)))) = ndigits x - 2" using d by simp
    ultimately show ?thesis
      using neg_big by (simp add: num_round_def length_str_int py_round_ndigits_int_neg del: py_round_ndigits.simps)
  qed
qed


lemma round_to_multiple:
  fixes x :: int
  defines "k \<equiv> ndigits x - 2"
  defines "m \<equiv> round_half_even (of_int x / of_int (10 ^ k))"
  shows "round_to x k = m * 10 ^ k" and "\<bar>m\<bar> \<le> 100"
    and "2 * \<bar>x - round_to x k\<bar> \<le> 10 ^ k"
    and "2 * \<bar>x - round_to x k\<bar> < 10 ^ k \<or> even m"
proof -
  let ?p = "(10::int) ^ k"
  let ?q = "(of_int x :: rat) / of_int ?p"
  have p: "0 < ?p" by simp
  show eq: "round_to x k = m * 10 ^ k"
    by (simp add: round_to_def m_def)
  have "ndigits x \<le> k + 2" by (simp add: k_def)
  then have "(10::int) ^ ndigits x \<le> 10 ^ (k + 2)"
    by (simp only: power_increasing_iff)
  with ndigits_upper [of x] have b: "\<bar>x\<bar> < 100 * ?p" by simp
  have "?q \<le> of_int 100"
  proof -
    have "x \<le> 100 * ?p" using b by linarith
    then have "(of_int x :: rat) \<le> of_int (100 * ?p)" by (simp only: of_int_le_iff)
    then show ?thesis by (simp add: pos_divide_le_eq)
  qed
  then have up: "m \<le> 100" unfolding m_def by (rule round_half_even_le)
  have "of_int (- 100) \<le> ?q"
  proof -
    have "- 100 * ?p \<le> x" using b by linarith
    then have "(of_int (- 100 * ?p) :: rat) \<le> of_int x" by (simp only: of_int_le_iff)
    then show ?thesis by (simp add: pos_le_divide_eq)
  qed
  then have lo: "- 100 \<le> m" unfolding m_def by (rule round_half_even_ge)
  from up lo show "\<bar>m\<bar> \<le> 100" by simp
  have scale: "(of_int (2 * \<bar>x - m * ?p\<bar>) :: rat) = 2 * of_int ?p * \<bar>?q - of_int m\<bar>"
  proof -
    have "(of_int x :: rat) - of_int m * of_int ?p = of_int ?p * (?q - of_int m)"
      by (simp add: field_simps)
    then have "\<bar>(of_int x :: rat) - of_int m * of_int ?p\<bar> = of_int ?p * \<bar>?q - of_int m\<bar>"
      by (simp add: abs_mult)
    then show ?thesis by simp
  qed
  have "\<bar>?q - of_int m\<bar> \<le> 1 / 2" unfolding m_def by (rule round_half_even_near)
  then have "2 * of_int ?p * \<bar>?q - of_int m\<bar> \<le> (of_int ?p :: rat)"
    by (simp add: mult.assoc mult_le_cancel_left_pos [of "of_int ?p" _ "1/2", simplified] field_simps)
  with scale have "(of_int (2 * \<bar>x - m * ?p\<bar>) :: rat) \<le> of_int ?p" by simp
  then have "2 * \<bar>x - m * ?p\<bar> \<le> ?p" by (simp only: of_int_le_iff)
  with eq show "2 * \<bar>x - round_to x k\<bar> \<le> 10 ^ k" by simp
  have "\<bar>?q - of_int m\<bar> < 1 / 2 \<or> even m" unfolding m_def by (rule round_half_even_tie)
  then show "2 * \<bar>x - round_to x k\<bar> < 10 ^ k \<or> even m"
  proof
    assume "\<bar>?q - of_int m\<bar> < 1 / 2"
    then have "2 * of_int ?p * \<bar>?q - of_int m\<bar> < (of_int ?p :: rat)"
      by (simp add: field_simps)
    with scale have "(of_int (2 * \<bar>x - m * ?p\<bar>) :: rat) < of_int ?p" by simp
    then have "2 * \<bar>x - m * ?p\<bar> < ?p" by (simp only: of_int_less_iff)
    with eq show ?thesis by simp
  next
    assume "even m"
    then show ?thesis ..
  qed
qed


lemma filter_group3: "filter (\<lambda>c. c \<noteq> CHR '','') (group3 xs) = filter (\<lambda>c. c \<noteq> CHR '','') xs"
  by (induction xs rule: group3.induct) simp_all

lemma digit_char:
  assumes "0 \<le> m" "m < 10"
  shows "digit_value (''0123456789'' ! nat m) = m"
    and "''0123456789'' ! nat m \<noteq> CHR '',''"
    and "''0123456789'' ! nat m \<noteq> CHR ''-''"
proof -
  from assms have "m = 0 \<or> m = 1 \<or> m = 2 \<or> m = 3 \<or> m = 4 \<or> m = 5 \<or> m = 6 \<or> m = 7 \<or> m = 8 \<or> m = 9"
    by presburger
  then show "digit_value (''0123456789'' ! nat m) = m"
    and "''0123456789'' ! nat m \<noteq> CHR '',''"
    and "''0123456789'' ! nat m \<noteq> CHR ''-''"
    by (auto simp: digit_value_def)
qed

lemma int_of_digits_snoc: "int_of_digits (xs @ [c]) = 10 * int_of_digits xs + digit_value c"
  by (simp add: int_of_digits_def)

lemma digits_props:
  "0 \<le> n \<Longrightarrow> int_of_digits (digits n) = n
     \<and> CHR '','' \<notin> set (digits n) \<and> CHR ''-'' \<notin> set (digits n)"
proof (induction n rule: digits.induct)
  case (1 n)
  show ?case
  proof (cases "n < 10")
    case True
    with 1(2) digit_char [of n] show ?thesis
      by (subst (1 2 3) digits.simps) (simp add: int_of_digits_def)
  next
    case False
    with 1 have ih: "int_of_digits (digits (n div 10)) = n div 10"
      "CHR '','' \<notin> set (digits (n div 10))" "CHR ''-'' \<notin> set (digits (n div 10))"
      by simp_all
    have "0 \<le> n mod 10" "n mod 10 < 10" by simp_all
    from digit_char [OF this] ih False show ?thesis
      by (subst (1 2 3) digits.simps) (simp add: int_of_digits_snoc)
  qed
qed

lemma filter_no_comma: "CHR '','' \<notin> set xs \<Longrightarrow> filter (\<lambda>c. c \<noteq> CHR '','') xs = xs"
  by (induction xs) auto

lemma filter_grouped_digits:
  "0 \<le> n \<Longrightarrow> filter (\<lambda>c. c \<noteq> CHR '','') (rev (group3 (rev (digits n)))) = digits n"
proof -
  assume n: "0 \<le> n"
  let ?P = "\<lambda>c. c \<noteq> CHR '',''"
  have "filter ?P (rev (group3 (rev (digits n)))) = rev (filter ?P (group3 (rev (digits n))))"
    by (simp only: rev_filter)
  also have "\<dots> = rev (filter ?P (rev (digits n)))"
    by (simp only: filter_group3)
  also have "\<dots> = filter ?P (digits n)"
    by (simp only: rev_filter rev_rev_ident)
  also have "\<dots> = digits n"
    using digits_props [OF n] by (simp add: filter_no_comma)
  finally show ?thesis .
qed

lemma comma_value_format_comma: "comma_value (format_comma y) = y"
proof (cases "y < 0")
  case True
  then have "0 \<le> - y" by simp
  from filter_grouped_digits [OF this] digits_props [OF this] True show ?thesis
    by (simp add: comma_value_def format_comma_def)
next
  case False
  then have n: "0 \<le> y" by simp
  obtain c cs where d: "digits y = c # cs"
    using length_digits_pos [of y] by (cases "digits y") auto
  with digits_props [OF n] have "c \<noteq> CHR ''-''" by auto
  with filter_grouped_digits [OF n] digits_props [OF n] False d show ?thesis
    by (simp add: comma_value_def format_comma_def)
qed

lemma filter_format_comma: "filter (\<lambda>c. c \<noteq> CHR '','') (format_comma y) = str_int y"
proof (cases "y < 0")
  case True
  then have "0 \<le> - y" by simp
  from filter_grouped_digits [OF this] True show ?thesis
    by (simp add: format_comma_def str_int_def)
next
  case False
  then have "0 \<le> y" by simp
  from filter_grouped_digits [OF this] False show ?thesis
    by (simp add: format_comma_def str_int_def)
qed

subsection \<open>Rounding to binary64\<close>

lemma bit_length_nonneg: "0 \<le> bit_length n"
  by (induction n rule: bit_length.induct) (subst bit_length.simps, simp)

lemma bit_length_pos: "0 < n \<Longrightarrow> 0 < bit_length n"
  using bit_length_nonneg [of "n div 2"] by (subst bit_length.simps) simp

lemma bit_length_le: "n < 2 ^ j \<Longrightarrow> bit_length n \<le> int j"
proof (induction j arbitrary: n)
  case 0
  then show ?case by (subst bit_length.simps) simp
next
  case (Suc j)
  show ?case
  proof (cases "n \<le> 0")
    case True
    then show ?thesis by (subst bit_length.simps) simp
  next
    case False
    from Suc.prems have "n div 2 < 2 ^ j" by simp
    then have "bit_length (n div 2) \<le> int j" by (rule Suc.IH)
    with False show ?thesis by (subst bit_length.simps) simp
  qed
qed

lemma ilog2_le:
  assumes "0 < q" "q < of_int (2 ^ j)"
  shows "ilog2 q \<le> int j - 1"
proof (cases "1 \<le> q")
  case True
  have "of_int \<lfloor>q\<rfloor> \<le> q" by simp
  with assms(2) have "(of_int \<lfloor>q\<rfloor> :: rat) < of_int (2 ^ j)" by linarith
  then have "\<lfloor>q\<rfloor> < 2 ^ j" by (simp only: of_int_less_iff)
  then have "bit_length \<lfloor>q\<rfloor> \<le> int j" by (rule bit_length_le)
  with True show ?thesis by (simp add: ilog2_def)
next
  case False
  with assms(1) have "1 < 1 / q" by simp
  then have "1 < \<lceil>1 / q\<rceil>" by (simp only: less_ceiling_iff of_int_1)
  then have "0 < bit_length (\<lceil>1 / q\<rceil> - 1)" by (intro bit_length_pos) simp
  with False show ?thesis by (simp add: ilog2_def)
qed

lemma pow2_neg: "e \<le> 52 \<Longrightarrow> pow2 (e - 52) = 1 / of_int (2 ^ nat (52 - e))"
  by (cases "e = 52") (simp_all add: pow2_def)

text \<open>Rounding to binary64 when the exponent is at most 52: the result is an integer
  multiple of a power of two, and bounds by integers carry over.\<close>

lemma fl64_small_exponent:
  assumes q: "q \<noteq> 0" and e: "max (ilog2 \<bar>q\<bar>) (- 1022) \<le> 52"
  defines "s \<equiv> nat (52 - max (ilog2 \<bar>q\<bar>) (- 1022))"
  shows "fl64 q = Finite (of_int (round_half_even (q * of_int (2 ^ s))) / of_int (2 ^ s))"
proof -
  let ?e = "max (ilog2 \<bar>q\<bar>) (- 1022)"
  have p: "pow2 (?e - 52) = 1 / of_int (2 ^ s)"
    unfolding s_def using e by (rule pow2_neg)
  have ne: "\<not> 1023 < ?e" "?e \<noteq> 1023"
    using e by linarith+
  show ?thesis
    unfolding fl64_def Let_def using q p ne by simp
qed

lemma fl64_of_int:
  assumes "\<bar>z\<bar> < 2 ^ 53"
  shows "fl64 (of_int z) = Finite (of_int z)"
proof (cases "z = 0")
  case True
  then show ?thesis by (simp add: fl64_def)
next
  case False
  let ?q = "of_int z :: rat"
  have a: "\<bar>?q\<bar> = of_int \<bar>z\<bar>" by simp
  have "1 \<le> \<bar>z\<bar>" using False by simp
  then have one: "1 \<le> \<bar>?q\<bar>" unfolding a by (simp only: of_int_1_le_iff)
  have "\<bar>?q\<bar> < of_int (2 ^ 53)" unfolding a using assms by (simp only: of_int_less_iff)
  with one have "ilog2 \<bar>?q\<bar> \<le> int 53 - 1" by (intro ilog2_le) simp_all
  then have le: "ilog2 \<bar>?q\<bar> \<le> 52" by simp
  then have e: "max (ilog2 \<bar>?q\<bar>) (- 1022) \<le> 52" by simp
  have q0: "?q \<noteq> 0" using False by simp
  define s where "s = nat (52 - max (ilog2 \<bar>?q\<bar>) (- 1022))"
  have "?q * of_int (2 ^ s) = of_int (z * 2 ^ s)" by simp
  then have "round_half_even (?q * of_int (2 ^ s)) = z * 2 ^ s"
    by (simp only: round_half_even_of_int)
  with fl64_small_exponent [OF q0 e] show ?thesis
    by (simp add: s_def)
qed

lemma fl64_bounded:
  assumes "\<bar>r\<bar> \<le> 100"
  shows "\<exists>r'. fl64 r = Finite r' \<and> \<bar>r'\<bar> \<le> 100 \<and> \<bar>r - r'\<bar> \<le> 1 / 2 ^ 47"
proof (cases "r = 0")
  case True
  then show ?thesis by (simp add: fl64_def)
next
  case False
  then have pos: "0 < \<bar>r\<bar>" by simp
  have "\<bar>r\<bar> < of_int (2 ^ 7)" using assms by simp
  with pos have "ilog2 \<bar>r\<bar> \<le> int 7 - 1" by (rule ilog2_le)
  then have le: "max (ilog2 \<bar>r\<bar>) (- 1022) \<le> 6" by simp
  then have e: "max (ilog2 \<bar>r\<bar>) (- 1022) \<le> 52" by simp
  define s where "s = nat (52 - max (ilog2 \<bar>r\<bar>) (- 1022))"
  define m where "m = round_half_even (r * of_int (2 ^ s))"
  let ?t = "(2::int) ^ s"
  have s46: "46 \<le> s" using le by (simp add: s_def)
  have t: "(0::rat) < of_int ?t" by simp
  have res: "fl64 r = Finite (of_int m / of_int ?t)"
    using fl64_small_exponent [OF False e] by (simp add: s_def m_def)
  have "r * of_int ?t \<le> 100 * of_int ?t"
    using assms by (intro mult_right_mono) simp_all
  then have "r * of_int ?t \<le> of_int (100 * ?t)" by simp
  then have up: "m \<le> 100 * ?t" unfolding m_def by (rule round_half_even_le)
  have "(- 100) * of_int ?t \<le> r * of_int ?t"
    using assms by (intro mult_right_mono) (simp_all add: abs_le_iff)
  then have "of_int (- 100 * ?t) \<le> r * of_int ?t" by simp
  then have lo: "- 100 * ?t \<le> m" unfolding m_def by (rule round_half_even_ge)
  have "(of_int m :: rat) \<le> of_int (100 * ?t)" using up by (simp only: of_int_le_iff)
  then have b1: "(of_int m :: rat) / of_int ?t \<le> 100"
    by (simp add: pos_divide_le_eq)
  have "(of_int (- 100 * ?t) :: rat) \<le> of_int m" using lo by (simp only: of_int_le_iff)
  then have b2: "- 100 \<le> (of_int m :: rat) / of_int ?t"
    by (simp add: pos_le_divide_eq)
  have near: "\<bar>r * of_int ?t - of_int m\<bar> \<le> 1 / 2"
    unfolding m_def by (rule round_half_even_near)
  have "r - of_int m / of_int ?t = (r * of_int ?t - of_int m) / of_int ?t"
    by (simp add: field_simps)
  then have "\<bar>r - of_int m / of_int ?t\<bar> = \<bar>r * of_int ?t - of_int m\<bar> / of_int ?t"
    by (simp add: abs_divide)
  also have "\<dots> \<le> (1 / 2) / of_int ?t"
    using near t by (simp only: divide_right_mono less_imp_le)
  also have "\<dots> \<le> (1 / 2) / of_int (2 ^ 46)"
  proof -
    have "(2::int) ^ 46 \<le> 2 ^ s" using s46 by (simp only: power_increasing_iff)
    then have "(of_int (2 ^ 46) :: rat) \<le> of_int ?t" by (simp only: of_int_le_iff)
    then show ?thesis by (simp add: frac_le)
  qed
  finally have b3: "\<bar>r - of_int m / of_int ?t\<bar> \<le> 1 / 2 ^ 47" by simp
  from res b1 b2 b3 show ?thesis by (simp add: abs_le_iff)
qed

text \<open>Values that binary64 holds exactly: an int of at most 53 bits times a power of
  two, hence a two-digit decimal \<open>m * 10^k\<close> with \<open>\<bar>m\<bar> * 5^k < 2^53\<close>, and a small
  half-integer.\<close>

lemma round_half_even_below_half:
  assumes "of_int f \<le> q" "q < of_int f + 1 / 2"
  shows "round_half_even q = f"
proof -
  have "\<lfloor>q\<rfloor> = f" using assms by (intro floor_unique) linarith+
  then show ?thesis using assms by (simp add: round_half_even_def Let_def)
qed

lemma round_half_even_above_half:
  assumes "of_int f + 1 / 2 < q" "q < of_int f + 1"
  shows "round_half_even q = f + 1"
proof -
  have "\<lfloor>q\<rfloor> = f" using assms by (intro floor_unique) linarith+
  then show ?thesis using assms by (simp add: round_half_even_def Let_def)
qed

lemma fl64_scaled_int:
  assumes c: "\<bar>c\<bar> < 2 ^ 53" and j: "j \<le> 900"
  shows "fl64 (of_int (c * 2 ^ j)) = Finite (of_int (c * 2 ^ j))"
proof (cases "c = 0")
  case True
  then show ?thesis by (simp add: fl64_def)
next
  case False
  let ?q = "of_int (c * 2 ^ j) :: rat"
  let ?e = "max (ilog2 \<bar>?q\<bar>) (- 1022)"
  have q0: "?q \<noteq> 0" using False by simp
  have pos: "0 < \<bar>?q\<bar>" using q0 by simp
  have "\<bar>c * 2 ^ j\<bar> < 2 ^ 53 * 2 ^ j"
    using c by (simp add: abs_mult)
  then have "\<bar>c * 2 ^ j\<bar> < 2 ^ (53 + j)" by (simp add: power_add)
  then have "(of_int \<bar>c * 2 ^ j\<bar> :: rat) < of_int (2 ^ (53 + j))"
    by (simp only: of_int_less_iff)
  then have "\<bar>?q\<bar> < of_int (2 ^ (53 + j))" by simp
  with pos have "ilog2 \<bar>?q\<bar> \<le> int (53 + j) - 1" by (rule ilog2_le)
  then have e_up: "?e \<le> 52 + int j" by simp
  show ?thesis
  proof (cases "?e \<le> 52")
    case True
    define s where "s = nat (52 - ?e)"
    have "?q * of_int (2 ^ s) = of_int (c * 2 ^ j * 2 ^ s)" by simp
    then have "round_half_even (?q * of_int (2 ^ s)) = c * 2 ^ j * 2 ^ s"
      by (simp only: round_half_even_of_int)
    with fl64_small_exponent [OF q0 True] show ?thesis
      by (simp add: s_def)
  next
    case False
    define t where "t = nat (?e - 52)"
    have t: "t \<le> j" "0 < t" "?e - 52 = int t" using e_up False by (simp_all add: t_def)
    have p: "pow2 (?e - 52) = of_int (2 ^ t)"
      unfolding t(3) by (simp add: pow2_def)
    have pw: "(2::int) ^ j = 2 ^ (j - t) * 2 ^ t"
      using t(1) by (simp add: power_add [symmetric])
    have "c * 2 ^ j = (c * 2 ^ (j - t)) * 2 ^ t"
      by (subst pw) (simp only: mult.assoc)
    then have qf: "?q = of_int (c * 2 ^ (j - t)) * of_int (2 ^ t)"
      by (simp only: of_int_mult)
    have nz: "(of_int (2 ^ t) :: rat) \<noteq> 0" by simp
    have "?q / of_int (2 ^ t) = of_int (c * 2 ^ (j - t))"
      unfolding qf by (rule nonzero_mult_div_cancel_right [OF nz])
    then have m: "round_half_even (?q / pow2 (?e - 52)) = c * 2 ^ (j - t)"
      unfolding p by (simp only: round_half_even_of_int)
    have restore: "of_int (c * 2 ^ (j - t)) * pow2 (?e - 52) = ?q"
      by (subst p) (simp only: qf)
    have ne: "\<not> 1023 < ?e" "?e \<noteq> 1023"
      using e_up j by linarith+
    show ?thesis
      unfolding fl64_def Let_def m restore using q0 ne by simp
  qed
qed

lemma fl64_two_digit_decimal:
  assumes "\<bar>m\<bar> * 5 ^ k < 2 ^ 53" "k \<le> 900"
  shows "fl64 (of_int (m * 10 ^ k)) = Finite (of_int (m * 10 ^ k))"
proof -
  have "\<bar>m * 5 ^ k\<bar> < 2 ^ 53" using assms(1) by (simp add: abs_mult)
  from fl64_scaled_int [OF this assms(2)]
  have "fl64 (of_int (m * 5 ^ k * 2 ^ k)) = Finite (of_int (m * 5 ^ k * 2 ^ k))" .
  moreover have "m * 5 ^ k * 2 ^ k = m * 10 ^ k"
    by (simp add: power_mult_distrib [symmetric] mult.assoc)
  ultimately show ?thesis by simp
qed

lemma fl64_half_int:
  assumes "\<bar>z\<bar> < 2 ^ 52"
  shows "fl64 (of_int z / 2) = Finite (of_int z / 2)"
proof (cases "z = 0")
  case True
  then show ?thesis by (simp add: fl64_def)
next
  case False
  let ?q = "of_int z / 2 :: rat"
  let ?e = "max (ilog2 \<bar>?q\<bar>) (- 1022)"
  have q0: "?q \<noteq> 0" using False by simp
  have pos: "0 < \<bar>?q\<bar>" using q0 by simp
  have "(of_int \<bar>z\<bar> :: rat) < of_int (2 ^ 52)"
    using assms by (simp only: of_int_less_iff)
  then have "\<bar>?q\<bar> < of_int (2 ^ 51)" by simp
  with pos have "ilog2 \<bar>?q\<bar> \<le> int 51 - 1" by (rule ilog2_le)
  then have e: "?e \<le> 50" by simp
  then have e52: "?e \<le> 52" by simp
  define s where "s = nat (52 - ?e) - 1"
  have s: "nat (52 - ?e) = Suc s" using e by (simp add: s_def)
  have "?q * of_int (2 ^ Suc s) = of_int (z * 2 ^ s)" by simp
  then have "round_half_even (?q * of_int (2 ^ Suc s)) = z * 2 ^ s"
    by (simp only: round_half_even_of_int)
  with fl64_small_exponent [OF q0 e52] show ?thesis
    unfolding s by simp
qed

subsection \<open>num_round on ints and on floats of moderate size\<close>

lemma dvd_round_to: "10 ^ j dvd y \<Longrightarrow> round_to y j = y"
proof -
  assume "10 ^ j dvd y"
  then obtain c where c: "y = 10 ^ j * c" ..
  then have "(of_int y :: rat) / of_int (10 ^ j) = of_int c" by simp
  then have "round_half_even ((of_int y :: rat) / of_int (10 ^ j)) = c"
    by (simp only: round_half_even_of_int)
  with c show ?thesis by (simp add: round_to_def)
qed

lemma two_digits_dvd:
  assumes "y = m * 10 ^ k" "\<bar>m\<bar> \<le> 100"
  shows "10 ^ (ndigits y - 2) dvd y"
proof (cases "y = 0")
  case True
  then show ?thesis by simp
next
  case False
  have absy: "\<bar>y\<bar> = \<bar>m\<bar> * 10 ^ k" by (simp add: assms(1) abs_mult)
  show ?thesis
  proof (cases "\<bar>m\<bar> = 100")
    case True
    then have ay: "\<bar>y\<bar> = 10 ^ (k + 2)" by (simp add: absy)
    have "ndigits y = k + 3"
    proof (rule ndigits_unique)
      show "0 < k + 3" by simp
      show "10 ^ (k + 3 - 1) \<le> \<bar>y\<bar>" by (simp add: ay)
      show "\<bar>y\<bar> < 10 ^ (k + 3)" unfolding ay by (rule power_strict_increasing) simp_all
    qed
    then have "ndigits y - 2 = k + 1" by simp
    moreover have "(10::int) ^ (k + 1) dvd y"
    proof -
      from True have "m = 100 \<or> m = - 100" by linarith
      then have "y = 10 ^ (k + 1) * 10 \<or> y = 10 ^ (k + 1) * (- 10)"
        by (auto simp: assms(1))
      then show ?thesis by (auto simp del: power_Suc)
    qed
    ultimately show ?thesis by simp
  next
    case False
    with assms(2) have "\<bar>m\<bar> < 100" by simp
    then have "\<bar>m\<bar> * 10 ^ k < 100 * (10::int) ^ k"
      by (simp only: mult_less_cancel_right_pos zero_less_power zero_less_numeral)
    then have "\<bar>y\<bar> < 10 ^ (k + 2)" by (simp add: absy)
    with ndigits_lower [OF \<open>y \<noteq> 0\<close>] have "(10::int) ^ (ndigits y - 1) < 10 ^ (k + 2)"
      by linarith
    then have "ndigits y - 1 < k + 2" by (simp only: power_strict_increasing_iff)
    then have "ndigits y - 2 \<le> k" by simp
    then have "(10::int) ^ (ndigits y - 2) dvd 10 ^ k" by (rule le_imp_power_dvd)
    then show ?thesis unfolding assms(1) by (rule dvd_mult)
  qed
qed

lemma num_round_two_digits_fixed:
  assumes "y = m * 10 ^ k" "\<bar>m\<bar> \<le> 100"
  shows "num_round (PyInt y) = Inr (format_comma y)"
  using num_round_int_eq [of y] dvd_round_to [OF two_digits_dvd [OF assms]] by simp

text \<open>The truncation \<open>int(x)\<close> of a float and its number of digits.\<close>

lemma trunc_bounds:
  fixes q :: rat
  defines "i \<equiv> (if 0 \<le> q then \<lfloor>q\<rfloor> else \<lceil>q\<rceil>)"
  shows "of_int \<bar>i\<bar> \<le> \<bar>q\<bar>" and "\<bar>q\<bar> < of_int \<bar>i\<bar> + 1"
proof -
  show "of_int \<bar>i\<bar> \<le> \<bar>q\<bar>"
  proof (cases "0 \<le> q")
    case True
    then have "0 \<le> \<lfloor>q\<rfloor>" by simp
    with True show ?thesis by (simp add: i_def)
  next
    case False
    then have "\<lceil>q\<rceil> \<le> 0" by (simp add: ceiling_le_iff)
    moreover have "q \<le> of_int \<lceil>q\<rceil>" by simp
    ultimately show ?thesis using False by (simp add: i_def)
  qed
  show "\<bar>q\<bar> < of_int \<bar>i\<bar> + 1"
  proof (cases "0 \<le> q")
    case True
    then have "0 \<le> \<lfloor>q\<rfloor>" by simp
    moreover have "q < of_int \<lfloor>q\<rfloor> + 1" by linarith
    ultimately show ?thesis using True by (simp add: i_def)
  next
    case False
    then have "\<lceil>q\<rceil> \<le> 0" by (simp add: ceiling_le_iff)
    moreover have "of_int \<lceil>q\<rceil> - 1 < q" by linarith
    ultimately show ?thesis using False by (simp add: i_def)
  qed
qed

lemma float_below_power:
  fixes q :: rat
  defines "i \<equiv> (if 0 \<le> q then \<lfloor>q\<rfloor> else \<lceil>q\<rceil>)"
  shows "\<bar>q\<bar> < of_int (10 ^ ndigits i)"
proof -
  have "\<bar>i\<bar> + 1 \<le> 10 ^ ndigits i" using ndigits_upper [of i] by simp
  then have "(of_int (\<bar>i\<bar> + 1) :: rat) \<le> of_int (10 ^ ndigits i)" by (simp only: of_int_le_iff)
  with trunc_bounds(2) [of q] show ?thesis by (simp add: i_def)
qed

lemma py_round_ndigits_big:
  fixes q :: rat
  assumes big: "100 \<le> \<bar>q\<bar>" and mod: "\<bar>q\<bar> < 945 * 10 ^ 19"
  defines "i \<equiv> (if 0 \<le> q then \<lfloor>q\<rfloor> else \<lceil>q\<rceil>)"
  defines "k \<equiv> ndigits i - 2"
  defines "m \<equiv> round_half_even (q / of_int (10 ^ k))"
  shows "py_round_ndigits (PyFloat (Finite q)) (2 - int (ndigits i))
           = Inr (PyFloat (Finite (of_int (m * 10 ^ k))))"
    and "\<bar>m\<bar> \<le> 100"
    and "2 * \<bar>q - of_int (m * 10 ^ k)\<bar> \<le> of_int (10 ^ k)"
    and "2 * \<bar>q - of_int (m * 10 ^ k)\<bar> < of_int (10 ^ k) \<or> even m"
    and "fl64 (of_int (m * 10 ^ k)) = Finite (of_int (m * 10 ^ k))"
    and "\<bar>m * 10 ^ k\<bar> < 945 * 10 ^ 19"
proof -
  let ?p = "(10::int) ^ k"
  let ?d = "ndigits i"
  have p: "(0::rat) < of_int ?p" by simp
  have il: "(of_int \<bar>i\<bar> :: rat) \<le> \<bar>q\<bar>" and iu: "\<bar>q\<bar> < of_int \<bar>i\<bar> + 1"
    using trunc_bounds [of q] by (simp_all add: i_def)
  from iu big have "(of_int 99 :: rat) < of_int \<bar>i\<bar>" by simp
  then have "99 < \<bar>i\<bar>" by (simp only: of_int_less_iff)
  then have d3: "3 \<le> ?d" by (intro ndigits_large) simp
  then have dk: "?d = k + 2" by (simp add: k_def)
  have i0: "i \<noteq> 0" using \<open>99 < \<bar>i\<bar>\<close> by auto
  from il mod have "(of_int \<bar>i\<bar> :: rat) < of_int (945 * 10 ^ 19)" by simp
  then have "\<bar>i\<bar> < 945 * 10 ^ 19" by (simp only: of_int_less_iff)
  then have "\<bar>i\<bar> < 10 ^ 22" by simp
  with ndigits_lower [OF i0] have "(10::int) ^ (?d - 1) < 10 ^ 22" by linarith
  then have "?d - 1 < 22" by (simp only: power_strict_increasing_iff)
  then have d22: "?d \<le> 22" by simp
  then have k20: "k \<le> 20" by (simp add: k_def)
  have qb: "\<bar>q\<bar> < of_int (100 * ?p)"
    using float_below_power [of q] by (simp add: i_def [symmetric] dk)
  have "q / of_int ?p \<le> of_int 100"
  proof -
    have "q \<le> of_int (100 * ?p)" using qb by (simp add: abs_less_iff)
    then show ?thesis by (simp add: pos_divide_le_eq)
  qed
  then have up: "m \<le> 100" unfolding m_def by (rule round_half_even_le)
  have "of_int (- 100) \<le> q / of_int ?p"
  proof -
    have "of_int (- 100 * ?p) \<le> q" using qb by (simp add: abs_less_iff)
    then show ?thesis by (simp add: pos_le_divide_eq)
  qed
  then have lo: "- 100 \<le> m" unfolding m_def by (rule round_half_even_ge)
  from up lo show m100: "\<bar>m\<bar> \<le> 100" by simp
  have near: "\<bar>q / of_int ?p - of_int m\<bar> \<le> 1 / 2"
    unfolding m_def by (rule round_half_even_near)
  have m94: "\<bar>m\<bar> \<le> 94" if "k = 20"
  proof -
    have "\<bar>q\<bar> / of_int ?p < 945 / 10"
      using mod by (simp add: that pos_divide_less_eq)
    then have "\<bar>q / of_int ?p\<bar> < 945 / 10"
      by (simp add: abs_divide)
    with near have "\<bar>(of_int m :: rat)\<bar> < 95" by linarith
    then have "(of_int \<bar>m\<bar> :: rat) < of_int 95" by simp
    then have "\<bar>m\<bar> < 95" by (simp only: of_int_less_iff)
    then show ?thesis by simp
  qed
  have five: "\<bar>m\<bar> * 5 ^ k < 2 ^ 53"
  proof (cases "k = 20")
    case True
    have "\<bar>m\<bar> * 5 ^ 20 \<le> 94 * 5 ^ 20"
      using m94 [OF True] by (simp only: mult_right_mono zero_le_power zero_le_numeral)
    also have "\<dots> < (2::int) ^ 53" by simp
    finally show ?thesis by (simp only: True)
  next
    case False
    with k20 have "k \<le> 19" by simp
    then have "(5::int) ^ k \<le> 5 ^ 19" by (simp only: power_increasing_iff)
    with m100 have "\<bar>m\<bar> * 5 ^ k \<le> 100 * 5 ^ 19"
      by (intro mult_mono) simp_all
    also have "\<dots> < (2::int) ^ 53" by simp
    finally show ?thesis .
  qed
  from k20 have "k \<le> 900" by simp
  with five show rep: "fl64 (of_int (m * 10 ^ k)) = Finite (of_int (m * 10 ^ k))"
    by (rule fl64_two_digit_decimal)
  show "\<bar>m * 10 ^ k\<bar> < 945 * 10 ^ 19"
  proof (cases "k = 20")
    case True
    have "\<bar>m\<bar> * 10 ^ 20 \<le> 94 * 10 ^ 20"
      using m94 [OF True] by (simp only: mult_right_mono zero_le_power zero_le_numeral)
    also have "\<dots> < (945::int) * 10 ^ 19" by simp
    finally show ?thesis by (simp add: True abs_mult)
  next
    case False
    with k20 have "k \<le> 19" by simp
    then have "(10::int) ^ k \<le> 10 ^ 19" by (simp only: power_increasing_iff)
    with m100 have "\<bar>m\<bar> * 10 ^ k \<le> 100 * 10 ^ 19"
      by (intro mult_mono) simp_all
    also have "\<dots> < (945::int) * 10 ^ 19" by simp
    finally show ?thesis by (simp add: abs_mult)
  qed
  have "round_decimal q (2 - int ?d) = of_int (m * ?p)"
    using d3 by (simp add: round_decimal_def m_def dk)
  moreover have "\<not> 323 < 2 - int ?d" "\<not> 2 - int ?d < - 308"
    using d22 by simp_all
  ultimately show "py_round_ndigits (PyFloat (Finite q)) (2 - int ?d)
           = Inr (PyFloat (Finite (of_int (m * 10 ^ k))))"
    using rep by (simp del: of_int_mult of_int_power)
  have scale: "2 * \<bar>q - of_int (m * ?p)\<bar> = 2 * of_int ?p * \<bar>q / of_int ?p - of_int m\<bar>"
  proof -
    have "q - of_int (m * ?p) = of_int ?p * (q / of_int ?p - of_int m)"
      by (simp add: field_simps)
    then have "\<bar>q - of_int (m * ?p)\<bar> = of_int ?p * \<bar>q / of_int ?p - of_int m\<bar>"
      by (simp add: abs_mult)
    then show ?thesis by simp
  qed
  from near have "2 * of_int ?p * \<bar>q / of_int ?p - of_int m\<bar> \<le> (of_int ?p :: rat)"
    by (simp add: field_simps)
  with scale show "2 * \<bar>q - of_int (m * 10 ^ k)\<bar> \<le> of_int (10 ^ k)" by simp
  have "\<bar>q / of_int ?p - of_int m\<bar> < 1 / 2 \<or> even m"
    unfolding m_def by (rule round_half_even_tie)
  then show "2 * \<bar>q - of_int (m * 10 ^ k)\<bar> < of_int (10 ^ k) \<or> even m"
  proof
    assume "\<bar>q / of_int ?p - of_int m\<bar> < 1 / 2"
    then have "2 * of_int ?p * \<bar>q / of_int ?p - of_int m\<bar> < (of_int ?p :: rat)"
      by (simp add: field_simps)
    with scale show ?thesis by simp
  next
    assume "even m"
    then show ?thesis ..
  qed
qed

lemma round_half_even_of_int_times_power [simp]:
  "round_half_even (of_int a * 10 ^ k) = a * 10 ^ k"
proof -
  have "(of_int a :: rat) * 10 ^ k = of_int (a * 10 ^ k)" by simp
  then show ?thesis by (simp only: round_half_even_of_int)
qed

text \<open>
  A decimal with at most two places and magnitude at most 100 rounds to the same int
  before and after its conversion to binary64: it is an exact float when it is an int or
  a half-integer, and at least \<open>0.01\<close> away from the nearest half-integer otherwise.
\<close>

lemma round_half_even_fl64_hundredths:
  assumes r: "r = of_int c / 100" and b: "\<bar>r\<bar> \<le> 100" and fl: "fl64 r = Finite r'"
  shows "round_half_even r' = round_half_even r"
proof -
  define f where "f = \<lfloor>r\<rfloor>"
  define a where "a = c - 100 * f"
  have fr: "of_int f \<le> r" "r < of_int f + 1"
    unfolding f_def by linarith+
  have "(of_int a :: rat) = of_int c - 100 * of_int f"
    by (simp add: a_def)
  then have ra: "r = of_int f + of_int a / 100"
    by (simp add: r diff_divide_distrib)
  from fr ra have "0 \<le> (of_int a :: rat)" "(of_int a :: rat) < 100"
    by simp_all
  then have a: "0 \<le> a" "a < 100"
    by simp_all
  have f100: "\<bar>f\<bar> \<le> 100"
  proof -
    from b have "r < of_int 100 + 1" "of_int (- 100) \<le> r" by (simp_all add: abs_le_iff)
    then have "f \<le> 100" "- 100 \<le> f"
      unfolding f_def by (simp_all only: floor_le_iff le_floor_iff)
    then show ?thesis by simp
  qed
  from fl64_bounded [OF b] fl have near: "\<bar>r - r'\<bar> \<le> 1 / 2 ^ 47"
    by auto
  have eps: "(1::rat) / 2 ^ 47 < 1 / 1000" by simp
  from a consider (int) "a = 0" | (half) "a = 50" | (low) "1 \<le> a" "a \<le> 49"
    | (high) "51 \<le> a" "a \<le> 99"
    by linarith
  then show ?thesis
  proof cases
    case int
    then have rf: "r = of_int f" by (simp add: ra)
    from f100 have "\<bar>f\<bar> < 2 ^ 53" by simp
    then have "fl64 r = Finite r"
      unfolding rf by (rule fl64_of_int)
    with fl have "r' = r" by simp
    then show ?thesis by simp
  next
    case half
    then have rf: "r = of_int (2 * f + 1) / 2" by (simp add: ra field_simps)
    from f100 have "\<bar>2 * f + 1\<bar> < 2 ^ 52" by simp
    then have "fl64 r = Finite r"
      unfolding rf by (rule fl64_half_int)
    with fl have "r' = r" by simp
    then show ?thesis by simp
  next
    case low
    then have "(1::rat) \<le> of_int a" "(of_int a :: rat) \<le> 49" by simp_all
    with ra have rb: "of_int f + 1 / 100 \<le> r" "r \<le> of_int f + 49 / 100" by simp_all
    with near eps have "of_int f \<le> r'" "r' < of_int f + 1 / 2" by linarith+
    then have "round_half_even r' = f" by (rule round_half_even_below_half)
    moreover from rb have "of_int f \<le> r" "r < of_int f + 1 / 2" by linarith+
    then have "round_half_even r = f" by (rule round_half_even_below_half)
    ultimately show ?thesis by simp
  next
    case high
    then have "(51::rat) \<le> of_int a" "(of_int a :: rat) \<le> 99" by simp_all
    with ra have rb: "of_int f + 51 / 100 \<le> r" "r \<le> of_int f + 99 / 100" by simp_all
    with near eps have "of_int f + 1 / 2 < r'" "r' < of_int f + 1" by linarith+
    then have "round_half_even r' = f + 1" by (rule round_half_even_above_half)
    moreover from rb have "of_int f + 1 / 2 < r" "r < of_int f + 1" by linarith+
    then have "round_half_even r = f + 1" by (rule round_half_even_above_half)
    ultimately show ?thesis by simp
  qed
qed

lemma round_decimal_of_int [simp]: "0 \<le> n \<Longrightarrow> round_decimal (of_int j) n = of_int j"
proof -
  assume n: "0 \<le> n"
  have "(of_int j :: rat) * of_int (10 ^ nat n) = of_int (j * 10 ^ nat n)" by simp
  then have "round_half_even ((of_int j :: rat) * of_int (10 ^ nat n)) = j * 10 ^ nat n"
    by (simp only: round_half_even_of_int)
  with n show ?thesis by (simp add: round_decimal_def)
qed

lemma py_round_ndigits_small:
  fixes q :: rat
  assumes small: "\<bar>q\<bar> < 100" and n: "0 \<le> n" "n \<le> 2"
  shows "\<exists>r'. py_round_ndigits (PyFloat (Finite q)) n = Inr (PyFloat (Finite r'))
           \<and> round_half_even r' = round_half_even (round_decimal q n)
           \<and> \<bar>round_half_even r'\<bar> \<le> 100"
proof -
  define t :: int where "t = 10 ^ nat n"
  define u :: int where "u = 100 div t"
  define c where "c = round_half_even (q * of_int t)"
  define r :: rat where "r = of_int c / of_int t"
  have t: "(0::rat) < of_int t" by (simp add: t_def)
  from n have "nat n = 0 \<or> nat n = 1 \<or> nat n = 2" by linarith
  then have tu: "t * u = 100"
    by (auto simp: t_def u_def)
  then have "(of_int t :: rat) * of_int u = 100"
    by (simp only: of_int_mult [symmetric] of_int_numeral)
  then have hund: "r = of_int (c * u) / 100"
    using t by (simp add: r_def field_simps)
  have rd: "round_decimal q n = r"
    using n by (simp add: round_decimal_def r_def c_def t_def)
  have "q * of_int t \<le> 100 * of_int t"
    using small t by (intro mult_right_mono) simp_all
  then have "q * of_int t \<le> of_int (100 * t)" by simp
  then have "c \<le> 100 * t" unfolding c_def by (rule round_half_even_le)
  then have "(of_int c :: rat) \<le> of_int (100 * t)" by (simp only: of_int_le_iff)
  then have r_up: "r \<le> 100" using t by (simp add: r_def pos_divide_le_eq)
  have "(- 100) * of_int t \<le> q * of_int t"
    using small t by (intro mult_right_mono) (simp_all add: abs_less_iff)
  then have "of_int (- 100 * t) \<le> q * of_int t" by simp
  then have "- 100 * t \<le> c" unfolding c_def by (rule round_half_even_ge)
  then have "(of_int (- 100 * t) :: rat) \<le> of_int c" by (simp only: of_int_le_iff)
  then have r_lo: "- 100 \<le> r" using t by (simp add: r_def pos_le_divide_eq)
  from r_up r_lo have r100: "\<bar>r\<bar> \<le> 100" by (simp add: abs_le_iff)
  from fl64_bounded [OF r100] obtain r' where
    r': "fl64 r = Finite r'" "\<bar>r'\<bar> \<le> 100"
    by blast
  have res: "py_round_ndigits (PyFloat (Finite q)) n = Inr (PyFloat (Finite r'))"
    using n r' rd by simp
  have same: "round_half_even r' = round_half_even r"
    using hund r100 r'(1) by (rule round_half_even_fl64_hundredths)
  have "r' \<le> of_int 100" using r'(2) by (simp add: abs_le_iff)
  then have y_up: "round_half_even r' \<le> 100" by (rule round_half_even_le)
  have "of_int (- 100) \<le> r'" using r'(2) by (simp add: abs_le_iff)
  then have y_lo: "- 100 \<le> round_half_even r'" by (rule round_half_even_ge)
  from res same y_up y_lo show ?thesis
    unfolding rd by (intro exI [of _ r']) simp
qed

lemma f64_lt_Finite [simp]: "f64_lt (Finite a) (Finite b) = (a < b)"
  by simp

text \<open>What \<open>num_round\<close> returns on an int and on a float below \<open>9.45 * 10^21\<close> in
  magnitude.\<close>

lemma num_round_shape:
  assumes "moderate x"
  shows "\<exists>i y m. py_int x = Inr i
           \<and> num_round x = Inr (format_comma y)
           \<and> y = m * 10 ^ (ndigits i - 2)
           \<and> \<bar>m\<bar> \<le> 100
           \<and> (\<bar>py_value x\<bar> < 100 \<longrightarrow>
                y = round_half_even
                      (round_decimal (py_value x) (3 - int (length (str_int i)))))
           \<and> ((\<exists>j. x = PyInt j) \<or> 100 \<le> \<bar>py_value x\<bar> \<longrightarrow>
                2 * \<bar>py_value x - of_int y\<bar> \<le> of_int (10 ^ (ndigits i - 2))
                \<and> (2 * \<bar>py_value x - of_int y\<bar> < of_int (10 ^ (ndigits i - 2)) \<or> even m))
           \<and> ((\<exists>f. x = PyFloat f) \<longrightarrow>
                \<bar>y\<bar> < 945 * 10 ^ 19 \<and> fl64 (of_int y) = Finite (of_int y))"
proof (cases x)
  case (PyInt j)
  let ?k = "ndigits j - 2"
  let ?y = "round_to j ?k"
  obtain m where m: "?y = m * 10 ^ ?k" "\<bar>m\<bar> \<le> 100" "2 * \<bar>j - ?y\<bar> \<le> 10 ^ ?k"
    "2 * \<bar>j - ?y\<bar> < 10 ^ ?k \<or> even m"
    using round_to_multiple [of j] by blast
  have n1: "2 * \<bar>(of_int j :: rat) - of_int ?y\<bar> \<le> of_int (10 ^ ?k)"
  proof -
    have "(of_int (2 * \<bar>j - ?y\<bar>) :: rat) \<le> of_int (10 ^ ?k)"
      using m(3) by (simp only: of_int_le_iff)
    then show ?thesis by simp
  qed
  have n2: "2 * \<bar>(of_int j :: rat) - of_int ?y\<bar> < of_int (10 ^ ?k) \<or> even m"
  proof (cases "even m")
    case True
    then show ?thesis ..
  next
    case False
    with m(4) have "2 * \<bar>j - ?y\<bar> < 10 ^ ?k" by simp
    then have "(of_int (2 * \<bar>j - ?y\<bar>) :: rat) < of_int (10 ^ ?k)"
      by (simp only: of_int_less_iff)
    then show ?thesis by simp
  qed
  have n3: "?y = round_half_even (round_decimal (of_int j) (3 - int (length (str_int j))))"
    if "\<bar>(of_int j :: rat)\<bar> < 100"
  proof -
    from that have "(of_int \<bar>j\<bar> :: rat) < of_int 100" by simp
    then have "\<bar>j\<bar> < 100" by (simp only: of_int_less_iff)
    then have d2: "ndigits j \<le> 2" by (rule ndigits_small)
    then have "0 \<le> 3 - int (length (str_int j))" by (simp add: length_str_int)
    then have "round_decimal (of_int j) (3 - int (length (str_int j))) = of_int j"
      by (rule round_decimal_of_int)
    with d2 show ?thesis by simp
  qed
  show ?thesis
    using PyInt num_round_int_eq [of j] m(1,2) n1 n2 n3
    by (intro exI [of _ j] exI [of _ ?y] exI [of _ m]) simp
next
  case (PyFloat f)
  with assms obtain q where f: "f = Finite q" and mod: "\<bar>q\<bar> < 945 * 10 ^ 19"
    by (cases f) simp_all
  define i where "i = (if 0 \<le> q then \<lfloor>q\<rfloor> else \<lceil>q\<rceil>)"
  have x: "x = PyFloat (Finite q)" by (simp add: PyFloat f)
  have pi: "py_int x = Inr i" by (simp add: x i_def)
  have il: "(of_int \<bar>i\<bar> :: rat) \<le> \<bar>q\<bar>" and iu: "\<bar>q\<bar> < of_int \<bar>i\<bar> + 1"
    using trunc_bounds [of q] by (simp_all add: i_def)
  have isign: "i < 0 \<longleftrightarrow> q \<le> - 1"
  proof (cases "0 \<le> q")
    case True
    then have "0 \<le> \<lfloor>q\<rfloor>" by simp
    with True show ?thesis by (simp add: i_def)
  next
    case False
    have "\<lceil>q\<rceil> < 0 \<longleftrightarrow> q \<le> - 1"
      by (simp add: ceiling_less_iff)
    with False show ?thesis by (simp add: i_def)
  qed
  show ?thesis
  proof (cases "100 \<le> \<bar>q\<bar>")
    case True
    define k where "k = ndigits i - 2"
    define m where "m = round_half_even (q / of_int (10 ^ k))"
    note big = py_round_ndigits_big [OF True mod, folded i_def, folded k_def, folded m_def]
    have hundred: "2 - int (ndigits i) = - 1" if "q = 100"
    proof -
      from that have "i = 100" by (simp add: i_def)
      moreover have "ndigits 100 = 3" by (rule ndigits_unique) simp_all
      ultimately show ?thesis by simp
    qed
    have "q = 100 \<or> 100 < q \<or> q \<le> - 100"
      using True by linarith
    then consider (eq) "q = 100" | (above) "100 < q" | (below) "q \<le> - 100"
      by blast
    then have nr: "num_round x = Inr (format_comma (m * 10 ^ k))"
    proof cases
      case eq
      with big(1) hundred [OF eq] show ?thesis
        by (simp add: x num_round_def py_lt_def del: py_round_ndigits.simps)
    next
      case above
      then have "\<not> i < 0" using isign by simp
      then have "2 - int (length (str_int i)) = 2 - int (ndigits i)"
        by (simp add: length_str_int)
      with big(1) have r: "py_round_ndigits (PyFloat (Finite q)) (2 - int (length (str_int i)))
          = Inr (PyFloat (Finite (of_int (m * 10 ^ k))))"
        by (simp only:)
      from above pi show ?thesis
        by (simp add: x num_round_def py_lt_def r del: py_round_ndigits.simps py_int.simps)
    next
      case below
      then have "i < 0" using isign by simp
      then have "3 - int (length (str_int i)) = 2 - int (ndigits i)"
        by (simp add: length_str_int)
      with big(1) have r: "py_round_ndigits (PyFloat (Finite q)) (3 - int (length (str_int i)))
          = Inr (PyFloat (Finite (of_int (m * 10 ^ k))))"
        by (simp only:)
      from below pi show ?thesis
        by (simp add: x num_round_def py_lt_def r del: py_round_ndigits.simps py_int.simps)
    qed
    from pi nr big(2,3,4,5,6) True show ?thesis
      by (intro exI [of _ i] exI [of _ "m * 10 ^ k"] exI [of _ m])
        (simp add: x k_def del: of_int_mult of_int_power)
  next
    case False
    then have small: "\<bar>q\<bar> < 100" by simp
    from il small have "(of_int \<bar>i\<bar> :: rat) < of_int 100" by simp
    then have i100: "\<bar>i\<bar> < 100" by (simp only: of_int_less_iff)
    then have d2: "ndigits i \<le> 2" by (rule ndigits_small)
    define n where "n = 3 - int (length (str_int i))"
    have n: "0 \<le> n" "n \<le> 2"
      using d2 ndigits_pos [of i] by (simp_all add: n_def length_str_int)
    from py_round_ndigits_small [OF small n] obtain r' where
      r': "py_round_ndigits (PyFloat (Finite q)) n = Inr (PyFloat (Finite r'))"
      "round_half_even r' = round_half_even (round_decimal q n)"
      "\<bar>round_half_even r'\<bar> \<le> 100"
      by blast
    define y where "y = round_half_even r'"
    have nr: "num_round x = Inr (format_comma y)"
      using small pi r'(1)
      by (simp add: x num_round_def py_lt_def n_def y_def abs_less_iff
          del: py_round_ndigits.simps py_int.simps)
    have y100: "\<bar>y\<bar> \<le> 100" using r'(3) by (simp add: y_def)
    then have "\<bar>y\<bar> < 2 ^ 53" by simp
    then have rep: "fl64 (of_int y) = Finite (of_int y)" by (rule fl64_of_int)
    have yq: "y = round_half_even (round_decimal q (3 - int (length (str_int i))))"
      using r'(2) by (simp add: y_def n_def)
    from pi nr y100 rep yq d2 small show ?thesis
      by (intro exI [of _ i] exI [of _ y] exI [of _ y]) (simp add: x)
  qed
qed

text \<open>
  Where \<open>num_round\<close> meets its docstring.  For every int \<open>x\<close> and every finite float
  \<open>x\<close> with \<open>\<bar>x\<bar> < 9.45 * 10^21\<close>, \<open>num_round\<close> returns the comma-grouped decimal string
  (the digits of \<open>str(y)\<close> with commas inserted) of an int \<open>y = m * 10^(d-2)\<close> with
  \<open>\<bar>m\<bar> \<le> 100\<close>, where \<open>d\<close> is the number of digits of \<open>int(x)\<close> (the factor is 1 for
  \<open>d \<le> 2\<close>): all digits of \<open>y\<close> below the two leading positions of \<open>x\<close> are zero.  For an
  int, and for a float with \<open>\<bar>x\<bar> \<ge> 100\<close>, \<open>y\<close> is the multiple of \<open>10^(d-2)\<close> nearest to
  \<open>x\<close>, a tie going to the even multiple.  For \<open>\<bar>x\<bar> < 100\<close>, \<open>y\<close> is \<open>x\<close> rounded to
  \<open>3 - len(str(int(x)))\<close> decimal places (two for \<open>-1 < x < 10\<close>, one for
  \<open>10 \<le> x < 100\<close> and \<open>-10 < x \<le> -1\<close>, none for \<open>-100 < x \<le> -10\<close>) and then to the
  nearest int, both times with a tie going to the even neighbour and both times as in exact
  arithmetic: the conversions to binary64 in between change nothing.
\<close>

theorem num_round_two_digits:
  assumes "moderate x"
  shows "\<exists>i y m. py_int x = Inr i
           \<and> num_round x = Inr (format_comma y)
           \<and> filter (\<lambda>c. c \<noteq> CHR '','') (format_comma y) = str_int y
           \<and> y = m * 10 ^ (ndigits i - 2)
           \<and> \<bar>m\<bar> \<le> 100
           \<and> (\<bar>py_value x\<bar> < 100 \<longrightarrow>
                y = round_half_even
                      (round_decimal (py_value x) (3 - int (length (str_int i)))))
           \<and> ((\<exists>j. x = PyInt j) \<or> 100 \<le> \<bar>py_value x\<bar> \<longrightarrow>
                2 * \<bar>py_value x - of_int y\<bar> \<le> of_int (10 ^ (ndigits i - 2))
                \<and> (2 * \<bar>py_value x - of_int y\<bar> < of_int (10 ^ (ndigits i - 2)) \<or> even m))"
proof -
  from num_round_shape [OF assms] obtain i y m where
    "py_int x = Inr i" "num_round x = Inr (format_comma y)"
    "y = m * 10 ^ (ndigits i - 2)" "\<bar>m\<bar> \<le> 100"
    "\<bar>py_value x\<bar> < 100 \<longrightarrow>
       y = round_half_even (round_decimal (py_value x) (3 - int (length (str_int i))))"
    "(\<exists>j. x = PyInt j) \<or> 100 \<le> \<bar>py_value x\<bar> \<longrightarrow>
       2 * \<bar>py_value x - of_int y\<bar> \<le> of_int (10 ^ (ndigits i - 2))
       \<and> (2 * \<bar>py_value x - of_int y\<bar> < of_int (10 ^ (ndigits i - 2)) \<or> even m)"
    by blast
  with filter_format_comma [of y] show ?thesis
    by (intro exI [of _ i] exI [of _ y] exI [of _ m]) (simp only: simp_thms)
qed

text \<open>
  Two floats in this range.  \<open>1234567e14\<close> has 21 digits, and \<open>num_round\<close> keeps two of
  them.  \<open>11.46\<close> is rounded to one decimal place first, to \<open>11.5\<close>, and then to the
  even neighbour \<open>12\<close>, though \<open>11\<close> is nearer.
\<close>

theorem num_round_two_digits_witness:
  "moderate (PyFloat (Finite 123456700000000000000))
   \<and> fl64 123456700000000000000 = Finite 123456700000000000000
   \<and> num_round (PyFloat (Finite 123456700000000000000)) = Inr ''120,000,000,000,000,000,000''
   \<and> fl64 (1146 / 100) = Finite (1612851616552059 / 140737488355328)
   \<and> num_round (PyFloat (Finite (1612851616552059 / 140737488355328))) = Inr ''12''
   \<and> (\<exists>i y m. py_int (PyFloat (Finite 123456700000000000000)) = Inr i
         \<and> num_round (PyFloat (Finite 123456700000000000000)) = Inr (format_comma y)
         \<and> y = m * 10 ^ (ndigits i - 2)
         \<and> \<bar>m\<bar> \<le> 100)"
proof -
  have m: "moderate (PyFloat (Finite 123456700000000000000))"
    by simp
  have ev: "fl64 123456700000000000000 = Finite 123456700000000000000"
    "num_round (PyFloat (Finite 123456700000000000000)) = Inr ''120,000,000,000,000,000,000''"
    "fl64 (1146 / 100) = Finite (1612851616552059 / 140737488355328)"
    "num_round (PyFloat (Finite (1612851616552059 / 140737488355328))) = Inr ''12''"
    by code_simp+
  from num_round_two_digits [OF m] m ev show ?thesis
    by blast
qed

text \<open>
  The range is sharp.  \<open>9449999999999999475712\<close> and \<open>9450000000000001572864\<close> are
  neighbouring floats (they differ by \<open>2^21\<close>, the spacing of binary64 between \<open>2^73\<close>
  and \<open>2^74\<close>) on either side of \<open>9.45 * 10^21\<close>.  The first is rounded to
  \<open>9.4 * 10^21\<close>, which is a float.  The second is rounded to \<open>9.5 * 10^21\<close>, which is
  not, and the digits of the nearest float come out.
\<close>

lemma num_round_range_is_sharp:
  "fl64 9449999999999999475712 = Finite 9449999999999999475712
   \<and> moderate (PyFloat (Finite 9449999999999999475712))
   \<and> num_round (PyFloat (Finite 9449999999999999475712))
       = Inr ''9,400,000,000,000,000,000,000''
   \<and> fl64 9450000000000001572864 = Finite 9450000000000001572864
   \<and> \<not> moderate (PyFloat (Finite 9450000000000001572864))
   \<and> num_round (PyFloat (Finite 9450000000000001572864))
       = Inr ''9,500,000,000,000,001,048,576''
   \<and> (9450000000000001572864 :: int) - 9449999999999999475712 = 2 ^ 21"
  by code_simp

text \<open>
  C5.  The docstring of \<open>num_round\<close> promises a number with only its two largest
  digits non-zero.  For the float \<open>1e23\<close>, the binary64 value 99999999999999991611392,
  the code returns the string \<open>99,999,999,999,999,991,611,392\<close>, which is not a
  multiple of \<open>10^21\<close>: \<open>round(x, -21)\<close> finds the decimal \<open>10^23\<close>, but its result is a
  float again, the nearest one being the argument itself, and \<open>int(round(x))\<close> prints
  every digit of it.  The value rounded to its two leading digits is \<open>10^23\<close>, and that
  is what the same function returns for the int of the same value.
\<close>

theorem num_round_large_float:
  "fl64 (10 ^ 23) = Finite 99999999999999991611392
   \<and> num_round (PyFloat (Finite 99999999999999991611392))
       = Inr ''99,999,999,999,999,991,611,392''
   \<and> format_comma 99999999999999991611392 = ''99,999,999,999,999,991,611,392''
   \<and> \<not> 10 ^ 21 dvd (99999999999999991611392 :: int)
   \<and> round_to 99999999999999991611392 21 = 10 ^ 23
   \<and> format_comma (10 ^ 23) = ''100,000,000,000,000,000,000,000''
   \<and> num_round (PyInt 99999999999999991611392) = Inr ''100,000,000,000,000,000,000,000''"
  by code_simp

text \<open>A float whose value is an int with two significant digits is returned as it is.\<close>

lemma num_round_float_two_digits_fixed:
  assumes y: "y = m * 10 ^ k" "\<bar>m\<bar> \<le> 100" and r: "\<bar>y\<bar> < 945 * 10 ^ 19"
  shows "num_round (PyFloat (Finite (of_int y))) = Inr (format_comma y)"
proof -
  let ?x = "PyFloat (Finite (of_int y))"
  let ?K = "ndigits y - 2"
  from r have "(of_int \<bar>y\<bar> :: rat) < of_int (945 * 10 ^ 19)"
    by (simp only: of_int_less_iff)
  then have "moderate ?x" by simp
  from num_round_shape [OF this] obtain i y' m' where
    s: "py_int ?x = Inr i" "num_round ?x = Inr (format_comma y')"
       "y' = m' * 10 ^ (ndigits i - 2)"
       "\<bar>py_value ?x\<bar> < 100 \<longrightarrow>
          y' = round_half_even (round_decimal (py_value ?x) (3 - int (length (str_int i))))"
       "(\<exists>j. ?x = PyInt j) \<or> 100 \<le> \<bar>py_value ?x\<bar> \<longrightarrow>
          2 * \<bar>py_value ?x - of_int y'\<bar> \<le> of_int (10 ^ (ndigits i - 2))
          \<and> (2 * \<bar>py_value ?x - of_int y'\<bar> < of_int (10 ^ (ndigits i - 2)) \<or> even m')"
    by blast
  from s(1) have i: "i = y" by (simp split: if_splits)
  have "y' = y"
  proof (cases "\<bar>y\<bar> < 100")
    case True
    then have "ndigits y \<le> 2" by (rule ndigits_small)
    then have "0 \<le> 3 - int (length (str_int y))" by (simp add: length_str_int)
    then have "round_decimal (of_int y) (3 - int (length (str_int y))) = of_int y"
      by (rule round_decimal_of_int)
    with s(4) True show ?thesis by (simp add: i)
  next
    case False
    then have "(of_int 100 :: rat) \<le> of_int \<bar>y\<bar>" by (simp only: of_int_le_iff)
    then have "100 \<le> \<bar>py_value ?x\<bar>" by simp
    with s(5) have "2 * \<bar>(of_int y :: rat) - of_int y'\<bar> \<le> of_int (10 ^ ?K)"
      by (simp add: i)
    then have "(of_int (2 * \<bar>y - y'\<bar>) :: rat) \<le> of_int (10 ^ ?K)" by simp
    then have near: "2 * \<bar>y - y'\<bar> \<le> 10 ^ ?K" by (simp only: of_int_le_iff)
    from two_digits_dvd [OF y] obtain c where c: "y = 10 ^ ?K * c" ..
    have "y - y' = (c - m') * 10 ^ ?K"
      by (subst c, simp add: s(3) i algebra_simps)
    then have "\<bar>y - y'\<bar> = \<bar>c - m'\<bar> * 10 ^ ?K" by (simp add: abs_mult)
    with near have "(2 * \<bar>c - m'\<bar>) * 10 ^ ?K \<le> 1 * 10 ^ ?K" by simp
    then have "2 * \<bar>c - m'\<bar> \<le> 1" by (rule mult_right_le_imp_le) simp
    then have "c = m'" by arith
    with s(3) have "y' = 10 ^ ?K * c" by (simp add: i mult.commute)
    with c show ?thesis by (simp only:)
  qed
  with s(2) show ?thesis by simp
qed

text \<open>
  Where \<open>num_round\<close> is idempotent.  For every int \<open>x\<close> and every finite float \<open>x\<close> with
  \<open>\<bar>x\<bar> < 9.45 * 10^21\<close>, the string \<open>num_round(x)\<close> denotes an int \<open>y\<close> (its digits, the
  commas removed), and \<open>num_round(y)\<close> is the same string.  When \<open>x\<close> is a float,
  \<open>float(y)\<close> is exactly \<open>y\<close>, and \<open>num_round(float(y))\<close> is the same string too.
\<close>

theorem num_round_idempotent:
  assumes "moderate x"
  shows "\<exists>y. num_round x = Inr (format_comma y)
           \<and> comma_value (format_comma y) = y
           \<and> num_round (PyInt (comma_value (format_comma y))) = num_round x
           \<and> ((\<exists>f. x = PyFloat f) \<longrightarrow>
                fl64 (of_int y) = Finite (of_int y)
                \<and> num_round (PyFloat (Finite (of_int y))) = num_round x)"
proof -
  from num_round_shape [OF assms] obtain i y m where
    a: "num_round x = Inr (format_comma y)" and
    y: "y = m * 10 ^ (ndigits i - 2)" "\<bar>m\<bar> \<le> 100" and
    f: "(\<exists>f. x = PyFloat f) \<longrightarrow>
          \<bar>y\<bar> < 945 * 10 ^ 19 \<and> fl64 (of_int y) = Finite (of_int y)"
    by blast
  have b: "comma_value (format_comma y) = y"
    by (rule comma_value_format_comma)
  have c: "num_round (PyInt y) = Inr (format_comma y)"
    using y by (rule num_round_two_digits_fixed)
  have d: "num_round (PyFloat (Finite (of_int y))) = Inr (format_comma y)"
    if "\<exists>f. x = PyFloat f"
  proof -
    from f that have "\<bar>y\<bar> < 945 * 10 ^ 19" by simp
    with y show ?thesis by (rule num_round_float_two_digits_fixed)
  qed
  from a b c d f show ?thesis
    by (intro exI [of _ y]) simp
qed

text \<open>
  The float \<open>1234567e14\<close> is in this range: \<open>num_round\<close> gives
  \<open>120,000,000,000,000,000,000\<close> for it, for the int \<open>12 * 10^19\<close> and for the float
  \<open>12e19\<close>.
\<close>

theorem num_round_idempotent_witness:
  "moderate (PyFloat (Finite 123456700000000000000))
   \<and> num_round (PyFloat (Finite 123456700000000000000)) = Inr ''120,000,000,000,000,000,000''
   \<and> comma_value ''120,000,000,000,000,000,000'' = 120000000000000000000
   \<and> num_round (PyInt 120000000000000000000) = Inr ''120,000,000,000,000,000,000''
   \<and> num_round (PyFloat (Finite 120000000000000000000)) = Inr ''120,000,000,000,000,000,000''
   \<and> (\<exists>y. num_round (PyFloat (Finite 123456700000000000000)) = Inr (format_comma y)
         \<and> comma_value (format_comma y) = y
         \<and> num_round (PyInt (comma_value (format_comma y)))
             = num_round (PyFloat (Finite 123456700000000000000))
         \<and> num_round (PyFloat (Finite (of_int y)))
             = num_round (PyFloat (Finite 123456700000000000000)))"
proof -
  have m: "moderate (PyFloat (Finite 123456700000000000000))"
    by simp
  have ev: "num_round (PyFloat (Finite 123456700000000000000)) = Inr ''120,000,000,000,000,000,000''"
    "comma_value ''120,000,000,000,000,000,000'' = 120000000000000000000"
    "num_round (PyInt 120000000000000000000) = Inr ''120,000,000,000,000,000,000''"
    "num_round (PyFloat (Finite 120000000000000000000)) = Inr ''120,000,000,000,000,000,000''"
    by code_simp+
  from num_round_idempotent [OF m] m ev show ?thesis
    by blast
qed

text \<open>
  C7.  The result of \<open>num_round(1e23)\<close> is not a fixed point.  It is the string
  \<open>99,999,999,999,999,991,611,392\<close>; the number this string denotes is the int
  99999999999999991611392, and \<open>num_round\<close> of that int is
  \<open>100,000,000,000,000,000,000,000\<close>.  The first result was not rounded to two digits
  (the defect shown above), so rounding it again changes it.
\<close>

theorem num_round_large_float_refed:
  "fl64 (10 ^ 23) = Finite 99999999999999991611392
   \<and> num_round (PyFloat (Finite 99999999999999991611392))
       = Inr ''99,999,999,999,999,991,611,392''
   \<and> comma_value ''99,999,999,999,999,991,611,392'' = 99999999999999991611392
   \<and> num_round (PyInt 99999999999999991611392)
       = Inr ''100,000,000,000,000,000,000,000''"
  by code_simp

section \<open>Properties of the proportional splitting\<close>

lemma col_dims_loop_returns:
  "\<forall>i\<in>set is. i < length lefts \<and> i < length widths \<Longrightarrow>
   \<exists>d. col_dims_loop lefts widths t h is dims = Inr d"
  by (induction "is" arbitrary: dims) auto

lemma row_dims_loop_returns:
  "\<forall>i\<in>set is. i < length tops \<and> i < length heights \<Longrightarrow>
   \<exists>d. row_dims_loop tops heights l w is dims = Inr d"
  by (induction "is" arbitrary: dims) auto

lemma length_cumsum_from: "length (cumsum_from a xs) = length xs"
  by (induction xs arbitrary: a) auto

lemma length_cumsum: "length (cumsum xs) = length xs"
  by (simp add: cumsum_def length_cumsum_from split: list.splits)

lemma make_sub_dims_lengths:
  "make_sub_dims start len ps = Inr (starts, lengths) \<Longrightarrow>
   length lengths = length ps \<and> length starts = (if ps = [] then 1 else length ps)"
  by (auto simp: make_sub_dims_def Let_def length_cumsum split: if_splits)

text \<open>
  C2.  \<open>_make_sub_dims\<close> raises \<open>ValueError\<close> exactly when the proportions, added from
  the left starting at 0, do not give 1, and returns normally exactly when they do; so do
  \<open>make_col_dims\<close> and \<open>make_row_dims\<close>, whose loops never index out of range.  This
  holds for every element type, binary64 included.
\<close>

theorem make_sub_dims_raises_iff:
  "(make_sub_dims start len ps = Inl ValueError) = (py_sum ps \<noteq> 1)
   \<and> (\<exists>r. make_sub_dims start len ps = Inr r) = (py_sum ps = 1)
   \<and> (make_col_dims start len ps t h = Inl ValueError) = (py_sum ps \<noteq> 1)
   \<and> (\<exists>d. make_col_dims start len ps t h = Inr d) = (py_sum ps = 1)
   \<and> (make_row_dims start len ps l w = Inl ValueError) = (py_sum ps \<noteq> 1)
   \<and> (\<exists>d. make_row_dims start len ps l w = Inr d) = (py_sum ps = 1)"
proof -
  have sub: "(make_sub_dims start len ps = Inl ValueError) = (py_sum ps \<noteq> 1)"
    "(\<exists>r. make_sub_dims start len ps = Inr r) = (py_sum ps = 1)"
    by (auto simp: make_sub_dims_def Let_def)
  have col: "\<exists>d. make_col_dims start len ps t h = Inr d" if "py_sum ps = 1"
  proof -
    from that sub(2) obtain starts lengths where r: "make_sub_dims start len ps = Inr (starts, lengths)"
      by auto
    from make_sub_dims_lengths [OF r]
    have "\<forall>i\<in>set [0..<length ps]. i < length starts \<and> i < length lengths"
      by (auto split: if_splits)
    from col_dims_loop_returns [OF this] r show ?thesis
      by (simp add: make_col_dims_def)
  qed
  have row: "\<exists>d. make_row_dims start len ps l w = Inr d" if "py_sum ps = 1"
  proof -
    from that sub(2) obtain starts lengths where r: "make_sub_dims start len ps = Inr (starts, lengths)"
      by auto
    from make_sub_dims_lengths [OF r]
    have "\<forall>i\<in>set [0..<length ps]. i < length starts \<and> i < length lengths"
      by (auto split: if_splits)
    from row_dims_loop_returns [OF this] r show ?thesis
      by (simp add: make_row_dims_def)
  qed
  have col_err: "make_col_dims start len ps t h = Inl ValueError" if "py_sum ps \<noteq> 1"
    using that by (simp add: make_col_dims_def make_sub_dims_def)
  have row_err: "make_row_dims start len ps l w = Inl ValueError" if "py_sum ps \<noteq> 1"
    using that by (simp add: make_row_dims_def make_sub_dims_def)
  show ?thesis
    using sub col row col_err row_err by (cases "py_sum ps = 1") auto
qed

text \<open>
  C4.  In binary64, splitting the length 24 from the offset 1 with the proportions
  \<open>(0.5, 0.5)\<close> gives the starts \<open>[1, 13]\<close> and the lengths \<open>[12, 12]\<close>: the segments
  (start 1, length 12) and (start 13, length 12).
\<close>

theorem make_sub_dims_example:
  "make_sub_dims (Finite 1) (Finite 24) [Finite (1 / 2), Finite (1 / 2)]
     = Inr ([Finite 1, Finite 13], [Finite 12, Finite 12])"
  by code_simp

subsection \<open>Sub-segments in exact and in binary64 arithmetic\<close>

lemma foldl_plus_sum_list: "foldl (+) a xs = (a::'a::monoid_add) + sum_list xs"
  by (induction xs arbitrary: a) (simp_all add: add.assoc)

lemma py_sum_sum_list: "py_sum xs = (sum_list xs :: 'a::monoid_add)"
  by (simp add: py_sum_def foldl_plus_sum_list)

lemma cumsum_from_nth:
  "i < length xs \<Longrightarrow> cumsum_from a xs ! i = (a::'a::monoid_add) + sum_list (take (Suc i) xs)"
proof (induction xs arbitrary: a i)
  case Nil
  then show ?case by simp
next
  case (Cons x xs)
  then show ?case by (cases i) (simp_all add: add.assoc)
qed

lemma cumsum_nth:
  "i < length xs \<Longrightarrow> cumsum xs ! i = (sum_list (take (Suc i) xs) :: 'a::monoid_add)"
  by (cases xs; cases i) (simp_all add: cumsum_def cumsum_from_nth)

lemma sum_list_map_times: "sum_list (map (\<lambda>p. p * len) ps) = sum_list ps * (len::'a::semiring_1)"
  by (induction ps) (simp_all add: distrib_right)

text \<open>
  In exact arithmetic (any semiring) the lengths sum to the total length and every
  segment starts where the previous one ends.
\<close>

lemma make_sub_dims_exact:
  fixes start len :: "'a::semiring_1"
  assumes "py_sum ps = 1"
  shows "\<exists>starts lengths.
           make_sub_dims start len ps = Inr (starts, lengths)
           \<and> ps \<noteq> []
           \<and> length starts = length ps
           \<and> lengths = map (\<lambda>p. p * len) ps
           \<and> sum_list lengths = len
           \<and> starts ! 0 = start
           \<and> (\<forall>i. Suc i < length ps \<longrightarrow> starts ! Suc i = starts ! i + lengths ! i)"
proof -
  define starts where "starts = start # butlast (map (\<lambda>c. c * len + start) (cumsum ps))"
  define lengths where "lengths = map (\<lambda>p. p * len) ps"
  have ne: "ps \<noteq> []"
    using assms by (auto simp: py_sum_def)
  have res: "make_sub_dims start len ps = Inr (starts, lengths)"
    using assms by (simp add: make_sub_dims_def starts_def lengths_def Let_def)
  have len_starts: "length starts = length ps"
    using ne by (simp add: starts_def length_cumsum)
  have total: "sum_list lengths = len"
    using assms by (simp add: lengths_def sum_list_map_times py_sum_sum_list)
  have contiguous: "starts ! Suc i = starts ! i + lengths ! i" if "Suc i < length ps" for i
  proof -
    have next_start: "starts ! Suc i = sum_list (take (Suc i) ps) * len + start"
      using that by (simp add: starts_def nth_butlast length_cumsum cumsum_nth)
    show ?thesis
    proof (cases i)
      case 0
      with that next_start show ?thesis
        by (cases ps) (simp_all add: starts_def lengths_def add.commute)
    next
      case (Suc k)
      have this_start: "starts ! i = sum_list (take (Suc k) ps) * len + start"
        using that Suc by (simp add: starts_def nth_butlast length_cumsum cumsum_nth)
      have "take (Suc i) ps = take i ps @ [ps ! i]"
        using that by (simp add: take_Suc_conv_app_nth)
      then have "sum_list (take (Suc i) ps) = sum_list (take i ps) + ps ! i"
        by simp
      with next_start this_start Suc that show ?thesis
        by (simp add: lengths_def distrib_right add.assoc add.commute add.left_commute)
    qed
  qed
  from res ne len_starts total contiguous show ?thesis
    by (auto simp: lengths_def starts_def)
qed

text \<open>
  What the code returns for every element type, and that binary64 addition commutes.
\<close>

lemma f64_add_commute: "f64_add a b = f64_add b a"
  by (cases a; cases b) (simp_all add: add.commute)

lemma py_sum_float64_nonempty: "py_sum ps = (1::float64) \<Longrightarrow> ps \<noteq> []"
  by (auto simp: py_sum_def zero_float64_def one_float64_def)

lemma make_sub_dims_returns:
  assumes "py_sum ps = 1" "ps \<noteq> []"
  shows "\<exists>starts lengths.
           make_sub_dims start len ps = Inr (starts, lengths)
           \<and> length starts = length ps
           \<and> lengths = map (\<lambda>p. p * len) ps
           \<and> starts ! 0 = start
           \<and> (\<forall>i. Suc i < length ps \<longrightarrow> starts ! Suc i = cumsum ps ! i * len + start)"
  using assms
  by (simp add: make_sub_dims_def Let_def length_cumsum nth_butlast)

lemma cumsum_0: "ps \<noteq> [] \<Longrightarrow> cumsum ps ! 0 = ps ! 0"
  by (cases ps) (simp_all add: cumsum_def)

text \<open>
  C3, as amended.  For every start offset, every total length and every sequence of
  proportions whose \<open>sum\<close> is exactly 1 (which makes it non-empty), \<open>_make_sub_dims\<close>
  returns one start and one length per proportion, in input order.  In binary64, the
  arithmetic the code is written for: the length of segment \<open>i\<close> is
  \<open>proportions[i] * length\<close>, the first segment starts at the start offset, segment
  \<open>i + 1\<close> starts at \<open>cumsum[i] * length + start\<close> (each operation rounded), and the
  second segment starts exactly at the first start plus the first length.  In exact
  arithmetic (\<open>Fraction\<close> arguments) moreover the lengths sum to the total length and
  every segment starts where the previous one ends.
\<close>

theorem make_sub_dims_segments:
  fixes start len :: float64 and ps :: "float64 list"
    and start' len' :: rat and qs :: "rat list"
  shows "(py_sum ps = 1 \<longrightarrow>
           (\<exists>starts lengths.
              make_sub_dims start len ps = Inr (starts, lengths)
              \<and> ps \<noteq> []
              \<and> length starts = length ps
              \<and> lengths = map (\<lambda>p. p * len) ps
              \<and> starts ! 0 = start
              \<and> (\<forall>i. Suc i < length ps \<longrightarrow> starts ! Suc i = cumsum ps ! i * len + start)
              \<and> (1 < length ps \<longrightarrow> starts ! 1 = starts ! 0 + lengths ! 0)))
       \<and> (py_sum qs = 1 \<longrightarrow>
           (\<exists>starts lengths.
              make_sub_dims start' len' qs = Inr (starts, lengths)
              \<and> qs \<noteq> []
              \<and> length starts = length qs
              \<and> lengths = map (\<lambda>p. p * len') qs
              \<and> sum_list lengths = len'
              \<and> starts ! 0 = start'
              \<and> (\<forall>i. Suc i < length qs \<longrightarrow> starts ! Suc i = starts ! i + lengths ! i)))"
proof (intro conjI impI)
  assume s: "py_sum ps = 1"
  then have ne: "ps \<noteq> []"
    by (rule py_sum_float64_nonempty)
  from make_sub_dims_returns [OF s ne, of start len] obtain starts lengths where
    r: "make_sub_dims start len ps = Inr (starts, lengths)"
      "length starts = length ps" "lengths = map (\<lambda>p. p * len) ps" "starts ! 0 = start"
      "\<forall>i. Suc i < length ps \<longrightarrow> starts ! Suc i = cumsum ps ! i * len + start"
    by blast
  have second: "starts ! 1 = starts ! 0 + lengths ! 0" if "1 < length ps"
  proof -
    from that r(5) have "starts ! 1 = cumsum ps ! 0 * len + start"
      by simp
    also have "\<dots> = ps ! 0 * len + start"
      using ne by (simp add: cumsum_0)
    also have "\<dots> = start + ps ! 0 * len"
      by (simp add: plus_float64_def f64_add_commute)
    also have "\<dots> = starts ! 0 + lengths ! 0"
      using ne r(3,4) by simp
    finally show ?thesis .
  qed
  from r ne second
  show "\<exists>starts lengths.
          make_sub_dims start len ps = Inr (starts, lengths)
          \<and> ps \<noteq> []
          \<and> length starts = length ps
          \<and> lengths = map (\<lambda>p. p * len) ps
          \<and> starts ! 0 = start
          \<and> (\<forall>i. Suc i < length ps \<longrightarrow> starts ! Suc i = cumsum ps ! i * len + start)
          \<and> (1 < length ps \<longrightarrow> starts ! 1 = starts ! 0 + lengths ! 0)"
    by blast
next
  assume "py_sum qs = 1"
  then show "\<exists>starts lengths.
          make_sub_dims start' len' qs = Inr (starts, lengths)
          \<and> qs \<noteq> []
          \<and> length starts = length qs
          \<and> lengths = map (\<lambda>p. p * len') qs
          \<and> sum_list lengths = len'
          \<and> starts ! 0 = start'
          \<and> (\<forall>i. Suc i < length qs \<longrightarrow> starts ! Suc i = starts ! i + lengths ! i)"
    by (rule make_sub_dims_exact)
qed

text \<open>
  Both hypotheses hold, and the theorem applies, for the proportions \<open>(0.25, 0.75)\<close>: as
  floats from the offset 2 along the length 8, and as fractions from 1 along 24.
\<close>

theorem make_sub_dims_segments_witness:
  "py_sum [Finite (1 / 4), Finite (3 / 4)] = 1
   \<and> py_sum [1 / 4, 3 / 4 :: rat] = 1
   \<and> make_sub_dims (Finite 2) (Finite 8) [Finite (1 / 4), Finite (3 / 4)]
       = Inr ([Finite 2, Finite 4], [Finite 2, Finite 6])
   \<and> make_sub_dims 1 24 [1 / 4, 3 / 4 :: rat] = Inr ([1, 7], [6, 18])
   \<and> (\<exists>starts lengths.
         make_sub_dims (Finite 2) (Finite 8) [Finite (1 / 4), Finite (3 / 4)]
           = Inr (starts, lengths)
         \<and> lengths = map (\<lambda>p. p * Finite 8) [Finite (1 / 4), Finite (3 / 4)]
         \<and> starts ! 0 = Finite 2
         \<and> starts ! 1 = starts ! 0 + lengths ! 0)
   \<and> (\<exists>starts lengths.
         make_sub_dims 1 24 [1 / 4, 3 / 4 :: rat] = Inr (starts, lengths)
         \<and> sum_list lengths = 24
         \<and> starts ! 0 = 1
         \<and> starts ! 1 = starts ! 0 + lengths ! 0)"
proof -
  have hf: "py_sum [Finite (1 / 4), Finite (3 / 4)] = 1"
    by code_simp
  have hq: "py_sum [1 / 4, 3 / 4 :: rat] = 1"
    by (simp add: py_sum_def)
  have evf: "make_sub_dims (Finite 2) (Finite 8) [Finite (1 / 4), Finite (3 / 4)]
       = Inr ([Finite 2, Finite 4], [Finite 2, Finite 6])"
    by code_simp
  have evq: "make_sub_dims 1 24 [1 / 4, 3 / 4 :: rat] = Inr ([1, 7], [6, 18])"
    by (simp add: make_sub_dims_def py_sum_def cumsum_def)
  have two: "1 < length [Finite (1 / 4), Finite (3 / 4)]" "Suc 0 < length [1 / 4, 3 / 4 :: rat]"
    by simp_all
  from make_sub_dims_segments
         [of "[Finite (1 / 4), Finite (3 / 4)]" "Finite 2" "Finite 8" "[1 / 4, 3 / 4]" 1 24]
       hf hq two
  have "(\<exists>starts lengths.
         make_sub_dims (Finite 2) (Finite 8) [Finite (1 / 4), Finite (3 / 4)]
           = Inr (starts, lengths)
         \<and> lengths = map (\<lambda>p. p * Finite 8) [Finite (1 / 4), Finite (3 / 4)]
         \<and> starts ! 0 = Finite 2
         \<and> starts ! 1 = starts ! 0 + lengths ! 0)
   \<and> (\<exists>starts lengths.
         make_sub_dims 1 24 [1 / 4, 3 / 4 :: rat] = Inr (starts, lengths)
         \<and> sum_list lengths = 24
         \<and> starts ! 0 = 1
         \<and> starts ! Suc 0 = starts ! 0 + lengths ! 0)"
    by blast
  with hf hq evf evq show ?thesis
    by (simp only: One_nat_def simp_thms)
qed

text \<open>
  C3 as stated fails in binary64, from the third segment on.  With the module's own
  \<open>LEFT = 0.1\<close> as the start, its \<open>WIDTH = 25.8\<close> as the length and the proportions
  \<open>(0.1, 0.2, 0.7)\<close>, whose float sum is exactly \<open>1.0\<close>, the returned lengths are \<open>2.58\<close>,
  \<open>5.16\<close> and \<open>18.06\<close> (as floats): their float sum is \<open>25.799999999999997\<close>, and their
  exact sum differs from the length too; the second segment ends at \<open>2.68 + 5.16 = 7.84\<close>
  while the third starts at \<open>7.840000000000001\<close>.
\<close>

theorem make_sub_dims_binary64_counterexample:
  "fl64 (1 / 10) = Finite (3602879701896397 / 36028797018963968)
   \<and> fl64 (2 / 10) = Finite (3602879701896397 / 18014398509481984)
   \<and> fl64 (7 / 10) = Finite (3152519739159347 / 4503599627370496)
   \<and> fl64 (258 / 10) = Finite (7262054399134925 / 281474976710656)
   \<and> py_sum [Finite (3602879701896397 / 36028797018963968),
              Finite (3602879701896397 / 18014398509481984),
              Finite (3152519739159347 / 4503599627370496)] = 1
   \<and> make_sub_dims (Finite (3602879701896397 / 36028797018963968))
         (Finite (7262054399134925 / 281474976710656))
         [Finite (3602879701896397 / 36028797018963968),
          Finite (3602879701896397 / 18014398509481984),
          Finite (3152519739159347 / 4503599627370496)]
       = Inr ([Finite (3602879701896397 / 36028797018963968),
               Finite (6034823500676465 / 2251799813685248),
               Finite (8827055269646173 / 1125899906842624)],
              [Finite (1452410879826985 / 562949953421312),
               Finite (1452410879826985 / 281474976710656),
               Finite (5083438079394447 / 281474976710656)])
   \<and> py_sum [Finite (1452410879826985 / 562949953421312),
              Finite (1452410879826985 / 281474976710656),
              Finite (5083438079394447 / 281474976710656)]
       = Finite (1815513599783731 / 70368744177664)
   \<and> (1815513599783731 / 70368744177664 :: rat) \<noteq> 7262054399134925 / 281474976710656
   \<and> (1452410879826985 / 562949953421312 + 1452410879826985 / 281474976710656
        + 5083438079394447 / 281474976710656 :: rat) \<noteq> 7262054399134925 / 281474976710656
   \<and> Finite (6034823500676465 / 2251799813685248) + Finite (1452410879826985 / 281474976710656)
       = Finite (2206763817411543 / 281474976710656)
   \<and> (2206763817411543 / 281474976710656 :: rat) \<noteq> 8827055269646173 / 1125899906842624"
  by code_simp

section \<open>Properties of the slide tables\<close>

text \<open>
  C8.  Without \<open>col_proportions\<close> (\<open>None\<close>), \<open>_add_table_from_lst\<close> and the slide-deck
  \<open>add_table_from_df\<close> raise \<open>TypeError\<close> for all other arguments: the empty table has
  been added to the slide, and nothing else has happened.
\<close>

theorem add_table_without_col_proportions:
  "add_table_from_lst runs_of slide cols rows vals left top' width height first_cell font_size None
     = Inl (TypeError,
            slide @ [case get_cm left top' width height of
                       (l, t, w, h) \<Rightarrow> shapes_add_table (length rows + 1) (length cols + 1) l t w h])
   \<and> pptx_add_table_from_df runs_of slide df left top' width height None first_cell font_size
     = Inl (TypeError,
            slide @ [case get_cm left top' width height of
                       (l, t, w, h) \<Rightarrow>
                         shapes_add_table (length (df_index df) + 1) (length (df_columns df) + 1)
                           l t w h])"
  by (simp add: add_table_from_lst_def pptx_add_table_from_df_def Let_def split: prod.splits)

text \<open>
  C9.  The slide-deck \<open>add_table_from_df\<close> ignores its \<open>font_size\<close> argument: the result
  is the same for any two values of it, and whenever the call returns, every run of
  every cell of the table it added has the size \<open>Pt(12)\<close>.
\<close>

theorem pptx_add_table_from_df_font_size:
  "pptx_add_table_from_df runs_of slide df left top' width height col_proportions first_cell font_size
     = pptx_add_table_from_df runs_of slide df left top' width height col_proportions first_cell
         font_size'
   \<and> (\<forall>slide'.
        pptx_add_table_from_df runs_of slide df left top' width height col_proportions first_cell
          font_size = Inr slide' \<longrightarrow>
        (\<exists>table. slide' = slide @ [table] \<and>
           (\<forall>row\<in>set (cell_rows table). \<forall>cell\<in>set row. \<forall>r\<in>set cell.
              run_size r = Some (Pt (PyInt 12)))))"
  by (auto simp: pptx_add_table_from_df_def add_table_from_lst_def set_table_font_size_def Let_def
           split: prod.splits option.splits if_splits sum.splits)

text \<open>A call with \<open>font_size = 30\<close> that returns: all four cells carry \<open>Pt(12)\<close>.\<close>

theorem pptx_add_table_from_df_font_size_witness:
  "\<exists>table.
     pptx_add_table_from_df (\<lambda>s. [s]) []
       \<lparr>df_index = [''r''], df_columns = [''c''], df_values = [[''v'']]\<rparr>
       (1::int) 2 10 5 (Some [1]) '' '' (PyInt 30) = Inr ([] @ [table])
     \<and> cell_rows table =
         [[[\<lparr>run_text = '' '', run_size = Some (Pt (PyInt 12))\<rparr>],
           [\<lparr>run_text = ''c'', run_size = Some (Pt (PyInt 12))\<rparr>]],
          [[\<lparr>run_text = ''r'', run_size = Some (Pt (PyInt 12))\<rparr>],
           [\<lparr>run_text = ''v'', run_size = Some (Pt (PyInt 12))\<rparr>]]]
     \<and> list_all (list_all (list_all (\<lambda>r. run_size r = Some (Pt (PyInt 12))))) (cell_rows table)"
proof -
  let ?call = "pptx_add_table_from_df (\<lambda>s. [s]) []
       \<lparr>df_index = [''r''], df_columns = [''c''], df_values = [[''v'']]\<rparr>
       (1::int) 2 10 5 (Some [1]) '' '' (PyInt 30)"
  have ev: "?call = Inr
      [\<lparr>frame_left = Cm 1, frame_top = Cm 2, frame_width = Some (Cm 10),
        frame_height = Some (Cm 5), column_widths = [Some (Cm 10), None],
        cell_rows =
          [[[\<lparr>run_text = '' '', run_size = Some (Pt (PyInt 12))\<rparr>],
            [\<lparr>run_text = ''c'', run_size = Some (Pt (PyInt 12))\<rparr>]],
           [[\<lparr>run_text = ''r'', run_size = Some (Pt (PyInt 12))\<rparr>],
            [\<lparr>run_text = ''v'', run_size = Some (Pt (PyInt 12))\<rparr>]]]\<rparr>]"
    by (simp add: pptx_add_table_from_df_def add_table_from_lst_def set_table_font_size_def
        Let_def get_cm_def shapes_add_table_def py_sum_def set_column_width_def
        populate_table_def set_cell_text_def enumerate_eq_zip upt_rec numeral_2_eq_2)
  from pptx_add_table_from_df_font_size
    [of "\<lambda>s. [s]" "[]" "\<lparr>df_index = [''r''], df_columns = [''c''], df_values = [[''v'']]\<rparr>"
        "1::int" 2 10 5 "Some [1]" "'' ''" "PyInt 30" "PyInt 30"] ev
  show ?thesis
    by (simp add: list_all_iff)
qed

end
